theory Spec2Isabelle
  imports Main "HOL-Library.Char_ord" "HOL-Library.List_Lexorder"
begin

section \<open>JavaScript values used by main.js\<close>

text \<open>
  A JavaScript string is modelled as a \<open>string\<close>; a \<open>char\<close> stands for one code unit
  below 256, so the white space of \<open>String.prototype.trim\<close> and of the regular
  expression class \<open>\s\<close> is tab, line feed, vertical tab, form feed, carriage return,
  space and no-break space, and \<open>\w\<close> is \<open>[A-Za-z0-9_]\<close>.
\<close>

definition is_space :: "char \<Rightarrow> bool" where
  "is_space c = (of_char c \<in> set [9, 10, 11, 12, 13, 32, 160 :: nat])"

definition is_word :: "char \<Rightarrow> bool" where
  "is_word c =
     (let n = of_char c :: nat
      in (48 \<le> n \<and> n \<le> 57) \<or> (65 \<le> n \<and> n \<le> 90) \<or> n = 95 \<or> (97 \<le> n \<and> n \<le> 122))"

definition js_trim :: "string \<Rightarrow> string" where
  "js_trim s = rev (dropWhile is_space (rev (dropWhile is_space s)))"

text \<open>\<open>a || b\<close> on strings: the empty string is the only falsy string.\<close>

definition js_or :: "string \<Rightarrow> string \<Rightarrow> string" where
  "js_or a b = (if a \<noteq> [] then a else b)"

definition nl :: string where
  "nl = [CHR 0x0A]"

definition dq :: string where
  "dq = [CHR 0x22]"

text \<open>The decimal text of a non-negative integer, as a template literal prints \<open>Date.now()\<close>.\<close>

definition digit :: "nat \<Rightarrow> char" where
  "digit n = ''0123456789'' ! n"

function decimal :: "nat \<Rightarrow> string" where
  "decimal n = (if n < 10 then [digit n] else decimal (n div 10) @ [digit (n mod 10)])"
  by pat_completeness auto
termination
  by (relation "measure (\<lambda>n. n)") auto

declare decimal.simps [simp del]

section \<open>The event loop: pending callbacks\<close>

text \<open>
  A pending callback is a triple of its handle (what \<open>setTimeout\<close> returns), the time at
  which it is due, and the callback. The loop runs the callback that is due first; among
  callbacks due at the same time the one registered first runs first.
\<close>

type_synonym 'cb entry = "nat \<times> nat \<times> 'cb"

definition handle_of :: "'cb entry \<Rightarrow> nat" where
  "handle_of e = fst e"

definition due_of :: "'cb entry \<Rightarrow> nat" where
  "due_of e = fst (snd e)"

definition callback_of :: "'cb entry \<Rightarrow> 'cb" where
  "callback_of e = snd (snd e)"

fun earliest :: "'cb entry list \<Rightarrow> 'cb entry option" where
  "earliest [] = None"
| "earliest (e # es) =
     (case earliest es of
        None \<Rightarrow> Some e
      | Some e' \<Rightarrow> if due_of e \<le> due_of e' then Some e else Some e')"

text \<open>\<open>clearTimeout(h)\<close>; \<open>clearTimeout(null)\<close> does nothing.\<close>

fun cancel :: "nat option \<Rightarrow> 'cb entry list \<Rightarrow> 'cb entry list" where
  "cancel None es = es"
| "cancel (Some h) es = filter (\<lambda>e. handle_of e \<noteq> h) es"

text \<open>The order in which a fixed list of pending callbacks runs.\<close>

function firing_order :: "'cb entry list \<Rightarrow> 'cb entry list" where
  "firing_order es =
     (case earliest es of None \<Rightarrow> [] | Some e \<Rightarrow> e # firing_order (remove1 e es))"
  by pat_completeness auto

lemma earliest_mem: "earliest es = Some e \<Longrightarrow> e \<in> set es"
  by (induction es arbitrary: e) (auto split: option.splits if_splits)

lemma earliest_None: "earliest es = None \<longleftrightarrow> es = []"
  by (cases es) (auto split: option.splits)

termination firing_order
proof (relation "measure length")
  fix es :: "'cb entry list" and e
  assume "earliest es = Some e"
  then have "e \<in> set es" by (rule earliest_mem)
  then show "(remove1 e es, es) \<in> measure length"
    using length_pos_if_in_set [of e es] by (simp add: length_remove1)
qed simp

declare firing_order.simps [simp del]

section \<open>Batch execution: execWithInput\<close>

datatype signal = SIGTERM | SIGKILL

datatype stream = Stdout | Stderr

record RunResult =
  success :: bool
  "output" :: string

text \<open>
  What the environment decides about a spawned child: the chunks it prints (time, stream,
  text), and when and with which exit code its \<open>close\<close> event arrives (\<open>None\<close> is the
  \<open>null\<close> code of a child ended by a signal). Times count from the spawn.
\<close>

record child =
  chunks :: "(nat \<times> stream \<times> string) list"
  close_at :: nat
  close_code :: "int option"

text \<open>
  The callbacks \<open>execWithInput\<close> registers: the timers of the scripted inputs, of
  \<open>stdin.end()\<close>, of the timeout and of its forced kill, and the listeners for the
  child's \<open>data\<close> and \<open>close\<close> events.
\<close>

datatype callback =
    WriteInput string
  | EndInput
  | Timeout
  | ForceKill
  | ChildData stream string
  | ChildClose "int option"

text \<open>
  The closure of one \<open>execWithInput\<close> call: its variables \<open>out\<close>, \<open>err\<close>, \<open>killed\<close> and
  \<open>timer\<close>, the pending callbacks, the calls made on the child (\<open>stdin.write\<close>,
  \<open>stdin.end\<close>, \<open>kill\<close>, each with its time) and the value the promise resolved to.
\<close>

record exec_state =
  out :: string
  err :: string
  killed :: bool
  timer :: "nat option"
  agenda :: "callback entry list"
  fresh :: nat
  stdin_writes :: "(nat \<times> string) list"
  stdin_ends :: "nat list"
  kills :: "(nat \<times> signal) list"
  resolved :: "RunResult option"

definition setTimeout :: "callback \<Rightarrow> nat \<Rightarrow> nat \<Rightarrow> exec_state \<Rightarrow> exec_state" where
  "setTimeout cb delay t st =
     st\<lparr>agenda := agenda st @ [(fresh st, t + delay, cb)], fresh := Suc (fresh st)\<rparr>"

definition clearTimeout :: "nat option \<Rightarrow> exec_state \<Rightarrow> exec_state" where
  "clearTimeout h st = st\<lparr>agenda := cancel h (agenda st)\<rparr>"

text \<open>A promise keeps the first value it is resolved with.\<close>

definition resolve :: "RunResult \<Rightarrow> exec_state \<Rightarrow> exec_state" where
  "resolve r st = (case resolved st of None \<Rightarrow> st\<lparr>resolved := Some r\<rparr> | Some _ \<Rightarrow> st)"

definition close_result :: "int option \<Rightarrow> string \<Rightarrow> string \<Rightarrow> RunResult" where
  "close_result c e ou =
     \<lparr>success = (c = Some 0), output = js_or (js_trim (js_or e ou)) ''Execution failed''\<rparr>"

text \<open>Running one callback at the time \<open>t\<close> it is due.\<close>

fun fire :: "callback entry \<Rightarrow> exec_state \<Rightarrow> exec_state" where
  "fire (h, t, WriteInput i) st =
     (if \<not> killed st then st\<lparr>stdin_writes := stdin_writes st @ [(t, i @ nl)]\<rparr> else st)"
| "fire (h, t, EndInput) st = st\<lparr>stdin_ends := stdin_ends st @ [t]\<rparr>"
| "fire (h, t, Timeout) st =
     setTimeout ForceKill 1000 t (st\<lparr>killed := True, kills := kills st @ [(t, SIGTERM)]\<rparr>)"
| "fire (h, t, ForceKill) st = st\<lparr>kills := kills st @ [(t, SIGKILL)]\<rparr>"
| "fire (h, t, ChildData Stdout d) st = st\<lparr>out := out st @ d\<rparr>"
| "fire (h, t, ChildData Stderr d) st = st\<lparr>err := err st @ d\<rparr>"
| "fire (h, t, ChildClose c) st =
     resolve (close_result c (err st) (out st)) (clearTimeout (timer st) st)"

fun weight :: "callback entry \<Rightarrow> nat" where
  "weight (h, t, Timeout) = 2"
| "weight (h, t, cb) = 1"

definition load :: "exec_state \<Rightarrow> nat" where
  "load st = sum_list (map weight (agenda st))"

lemma weight_pos: "0 < weight e"
  by (cases e rule: weight.cases) auto

lemma load_remove1:
  "e \<in> set es \<Longrightarrow> sum_list (map weight (remove1 e es)) + weight e = sum_list (map weight es)"
  by (induction es) auto

lemma load_filter: "sum_list (map weight (filter P es)) \<le> sum_list (map weight es)"
  by (induction es) auto

text \<open>One turn of the loop: the callback leaves the pending list and runs.\<close>

definition step :: "callback entry \<Rightarrow> exec_state \<Rightarrow> exec_state" where
  "step e st = fire e (st\<lparr>agenda := remove1 e (agenda st)\<rparr>)"

lemma load_fire: "load (fire e st) < load st + weight e"
proof (cases "(e, st)" rule: fire.cases)
  case (7 h t c st')
  then show ?thesis
    using load_filter [of "\<lambda>e. handle_of e \<noteq> the (timer st)" "agenda st"]
    by (cases "timer st")
       (auto simp: load_def resolve_def clearTimeout_def split: option.splits)
qed (auto simp: load_def setTimeout_def)

lemma load_step:
  assumes "earliest (agenda st) = Some e"
  shows "load (step e st) < load st"
proof -
  from assms have mem: "e \<in> set (agenda st)" by (rule earliest_mem)
  have "load (step e st) < load (st\<lparr>agenda := remove1 e (agenda st)\<rparr>) + weight e"
    unfolding step_def by (rule load_fire)
  also have "\<dots> = load st"
    using load_remove1 [OF mem] by (simp add: load_def)
  finally show ?thesis .
qed

function run_loop :: "exec_state \<Rightarrow> exec_state" where
  "run_loop st =
     (case earliest (agenda st) of None \<Rightarrow> st | Some e \<Rightarrow> run_loop (step e st))"
  by pat_completeness auto
termination
  by (relation "measure load") (simp_all add: load_step)

declare run_loop.simps [simp del]

text \<open>
  \<open>execWithInput(cmd, args, inputs)\<close>, in the order of the source: the input timers (or
  the immediate \<open>stdin.end()\<close>), the timeout timer, and the child's events, which the
  loop runs after the timers due at the same time.
\<close>

definition empty_exec :: exec_state where
  "empty_exec =
     \<lparr>out = [], err = [], killed = False, timer = None, agenda = [], fresh = 0,
      stdin_writes = [], stdin_ends = [], kills = [], resolved = None\<rparr>"

definition schedule_inputs :: "string list \<Rightarrow> exec_state \<Rightarrow> exec_state" where
  "schedule_inputs inputs st =
     (if inputs \<noteq> [] then
        setTimeout EndInput (length inputs * 100 + 100) 0
          (fold (\<lambda>(x, i). setTimeout (WriteInput i) (x * 100) 0) (enumerate 0 inputs) st)
      else st\<lparr>stdin_ends := stdin_ends st @ [0]\<rparr>)"

definition schedule_timeout :: "exec_state \<Rightarrow> exec_state" where
  "schedule_timeout st = (setTimeout Timeout 10000 0 st)\<lparr>timer := Some (fresh st)\<rparr>"

definition attach_child :: "child \<Rightarrow> exec_state \<Rightarrow> exec_state" where
  "attach_child ch st =
     setTimeout (ChildClose (close_code ch)) (close_at ch) 0
       (fold (\<lambda>(t, k, d). setTimeout (ChildData k d) t 0) (chunks ch) st)"

definition spawned :: "string list \<Rightarrow> child \<Rightarrow> exec_state" where
  "spawned inputs ch = attach_child ch (schedule_timeout (schedule_inputs inputs empty_exec))"

definition execWithInput :: "string list \<Rightarrow> child \<Rightarrow> exec_state" where
  "execWithInput inputs ch = run_loop (spawned inputs ch)"

section \<open>The scratch directory and the host\<close>

text \<open>
  \<open>tempDir\<close> is \<open>path.join(os.tmpdir(), 'proworldz-lab')\<close>. Paths are POSIX paths:
  \<open>path.join\<close> of a directory and a plain file name puts a slash between them, and
  \<open>path.basename\<close> is what follows the last slash.
\<close>

definition path_join :: "string \<Rightarrow> string \<Rightarrow> string" where
  "path_join d n = d @ ''/'' @ n"

definition basename :: "string \<Rightarrow> string" where
  "basename p = rev (takeWhile (\<lambda>c. c \<noteq> CHR ''/'') (rev p))"

text \<open>\<open>s.includes(sub)\<close>: \<open>sub\<close> occurs somewhere in \<open>s\<close>.\<close>

fun str_includes :: "string \<Rightarrow> string \<Rightarrow> bool" where
  "str_includes [] sub = (sub = [])"
| "str_includes (c # s) sub = (take (length sub) (c # s) = sub \<or> str_includes s sub)"

fun join :: "string \<Rightarrow> string list \<Rightarrow> string" where
  "join sep [] = []"
| "join sep [x] = x"
| "join sep (x # y # ys) = x @ sep @ join sep (y # ys)"

text \<open>
  What the code can throw or reject with: a system error of an \<open>fs\<close> call (an \<open>Error\<close>
  object with a code, the system call and the path), or a plain string (what
  \<open>execPromise\<close> rejects with).
\<close>

datatype errno = ENOENT | EBUSY

datatype thrown = SysError errno string string | Text string

fun errno_text :: "errno \<Rightarrow> string" where
  "errno_text ENOENT = ''ENOENT: no such file or directory''"
| "errno_text EBUSY = ''EBUSY: resource busy or locked''"

text \<open>\<open>error.message\<close>; a string has no \<open>message\<close> property, the template prints
  \<open>undefined\<close>.\<close>

fun message :: "thrown \<Rightarrow> string" where
  "message (SysError c call p) = errno_text c @ '', '' @ call @ '' '' @ [CHR 0x27] @ p @ [CHR 0x27]"
| "message (Text s) = ''undefined''"

text \<open>\<open>error.toString()\<close>.\<close>

fun toString :: "thrown \<Rightarrow> string" where
  "toString (SysError c call p) = ''Error: '' @ message (SysError c call p)"
| "toString (Text s) = s"

text \<open>A process the code starts: \<open>exec(command)\<close> or \<open>spawn(cmd, args)\<close>.\<close>

datatype launch = Exec string | Spawn string "string list"

text \<open>
  The host: whether the scratch directory exists, the files in it (name and content, kept
  in the order of their names), the names that cannot be unlinked for now (a file in
  use), and the processes started so far. Every path the code touches lies directly in
  the scratch directory, so a file is kept under its base name.
\<close>

record host =
  tempDir :: string
  present :: bool
  entries :: "(string \<times> string) list"
  busy :: "string list"
  launched :: "launch list"

text \<open>
  Writing a file: an existing file gets the new content, a new one takes its place among
  the names (names compare byte by byte, a proper prefix first).
\<close>

definition put :: "string \<Rightarrow> string \<Rightarrow> (string \<times> string) list \<Rightarrow> (string \<times> string) list" where
  "put n c es =
     (if n \<in> fst ` set es then map (\<lambda>(n', c'). if n' = n then (n', c) else (n', c')) es
      else insort_key fst (n, c) es)"

definition writeFileSync :: "string \<Rightarrow> string \<Rightarrow> host \<Rightarrow> thrown + host" where
  "writeFileSync p c h =
     (if \<not> present h then Inl (SysError ENOENT ''open'' p)
      else Inr (h\<lparr>entries := put (basename p) c (entries h)\<rparr>))"

definition unlinkSync :: "string \<Rightarrow> host \<Rightarrow> thrown + host" where
  "unlinkSync p h =
     (if \<not> present h \<or> basename p \<notin> fst ` set (entries h) then Inl (SysError ENOENT ''unlink'' p)
      else if basename p \<in> set (busy h) then Inl (SysError EBUSY ''unlink'' p)
      else Inr (h\<lparr>entries := filter (\<lambda>(n, c). n \<noteq> basename p) (entries h)\<rparr>))"

text \<open>
  \<open>fs.readdirSync(tempDir)\<close> lists the directory with \<open>scandir\<close>, which returns the
  names sorted.
\<close>

definition readdirSync :: "host \<Rightarrow> thrown + string list" where
  "readdirSync h =
     (if \<not> present h then Inl (SysError ENOENT ''scandir'' (tempDir h))
      else Inr (sort (map fst (entries h))))"

text \<open>\<open>safeUnlink\<close>: the \<open>catch\<close> swallows whatever \<open>unlinkSync\<close> throws.\<close>

definition safeUnlink :: "string \<Rightarrow> host \<Rightarrow> host" where
  "safeUnlink filePath h = (case unlinkSync filePath h of Inl _ \<Rightarrow> h | Inr h' \<Rightarrow> h')"

text \<open>
  \<open>cleanupTempFiles(b)\<close>: \<open>forEach\<close> over the listing stops at the first \<open>unlinkSync\<close>
  that throws; the files removed before stay removed.
\<close>

fun sweep :: "string \<Rightarrow> string list \<Rightarrow> host \<Rightarrow> thrown option \<times> host" where
  "sweep stem [] h = (None, h)"
| "sweep stem (f # fs) h =
     (if str_includes f stem then
        (case unlinkSync (path_join (tempDir h) f) h of
           Inl e \<Rightarrow> (Some e, h)
         | Inr h' \<Rightarrow> sweep stem fs h')
      else sweep stem fs h)"

definition cleanupTempFiles :: "string \<Rightarrow> host \<Rightarrow> thrown option \<times> host" where
  "cleanupTempFiles b h =
     (case readdirSync h of
        Inl e \<Rightarrow> (Some e, h)
      | Inr names \<Rightarrow> sweep (basename b) names h)"

section \<open>The environment\<close>

text \<open>
  A child process object of an interactive session, as far as the code reads it:
  \<open>proc.killed\<close>; how far the child has got (it runs, then it emits \<open>exit\<close>, and
  once its streams have ended as well it emits \<open>close\<close>); \<open>proc.stdin\<close> (\<open>None\<close>
  when the stream is missing) with \<open>stdin.writable\<close>, the message of the error a
  \<open>write\<close> would throw, and what has been written; and the signals sent to the child.
\<close>

datatype phase = Running | Exited | Closed

record stdin_stream =
  writable :: bool
  write_fault :: "string option"
  written :: "string list"

record proc =
  proc_killed :: bool
  phase :: phase
  stdin :: "stdin_stream option"
  signals :: "signal list"

text \<open>
  What \<open>exec(command, callback)\<close> reports: the error's message when the command failed,
  the two output texts, and the files the command left in the scratch directory.
\<close>

record exec_report =
  failure :: "string option"
  stdout_text :: string
  stderr_text :: string
  products :: "(string \<times> string) list"

text \<open>
  What the code reads from outside: the platform, whether \<open>execSync(command)\<close> returns,
  what a command run by \<open>exec\<close> reports, how the child of a batch run behaves, and
  what \<open>spawn\<close> gives an interactive session (it may throw; \<open>None\<close> is a falsy
  result).
\<close>

record environment =
  win32 :: bool
  execSync_ok :: "string \<Rightarrow> bool"
  exec_outcome :: "string \<Rightarrow> exec_report"
  spawn_child :: "string \<Rightarrow> string list \<Rightarrow> child"
  spawn_proc :: "string \<Rightarrow> string list \<Rightarrow> thrown + proc option"

definition run_exec :: "environment \<Rightarrow> string \<Rightarrow> host \<Rightarrow> exec_report \<times> host" where
  "run_exec env command h =
     (let r = exec_outcome env command
      in (r, h\<lparr>entries := fold (\<lambda>(n, c). put n c) (products r) (entries h),
               launched := launched h @ [Exec command]\<rparr>))"

section \<open>Batch runs: runCodeWithInput\<close>

text \<open>
  How an asynchronous call ends: its promise resolves to a value, it throws (or its promise
  rejects), or the promise never settles.
\<close>

datatype 'a outcome = Returned 'a | Thrown thrown | Pending

definition getSupportedLanguages :: "string list" where
  "getSupportedLanguages = [''c'', ''cpp'', ''python'', ''java'', ''javascript'', ''php'', ''go'']"

definition getPythonCommand :: "environment \<Rightarrow> string" where
  "getPythonCommand env =
     (if win32 env then
        (case filter (\<lambda>cmd. execSync_ok env (cmd @ '' --version 2>nul''))
                [''python'', ''python3'', ''py''] of
           cmd # _ \<Rightarrow> cmd
         | [] \<Rightarrow> ''python'')
      else ''python3'')"

text \<open>\<open>execWithInput(cmd, args, inputs)\<close> as the runners see it: the spawn, and the value
  its promise resolves to.\<close>

definition spawn_and_wait ::
  "environment \<Rightarrow> string \<Rightarrow> string list \<Rightarrow> string list \<Rightarrow> host \<Rightarrow> RunResult outcome \<times> host" where
  "spawn_and_wait env cmd args inputs h =
     ((case resolved (execWithInput inputs (spawn_child env cmd args)) of
         Some r \<Rightarrow> Returned r
       | None \<Rightarrow> Pending),
      h\<lparr>launched := launched h @ [Spawn cmd args]\<rparr>)"

text \<open>
  The script runners: \<open>fs.writeFileSync(f + ext, c) || execWithInput(cmd, [f + ext], i)\<close>.
  \<open>writeFileSync\<close> returns \<open>undefined\<close>, so the right operand runs unless the write
  throws.
\<close>

definition run_script ::
  "environment \<Rightarrow> string \<Rightarrow> string list \<Rightarrow> string \<Rightarrow> string \<Rightarrow> string list \<Rightarrow> host
     \<Rightarrow> RunResult outcome \<times> host" where
  "run_script env cmd pre file c i h =
     (case writeFileSync file c h of
        Inl e \<Rightarrow> (Thrown e, h)
      | Inr h' \<Rightarrow> spawn_and_wait env cmd (pre @ [file]) i h')"

definition runJavaScriptWithInput ::
  "environment \<Rightarrow> string \<Rightarrow> string \<Rightarrow> string list \<Rightarrow> host \<Rightarrow> RunResult outcome \<times> host" where
  "runJavaScriptWithInput env c f i = run_script env ''node'' [] (f @ ''.js'') c i"

definition runPythonWithInput ::
  "environment \<Rightarrow> string \<Rightarrow> string \<Rightarrow> string list \<Rightarrow> host \<Rightarrow> RunResult outcome \<times> host" where
  "runPythonWithInput env c f i = run_script env (getPythonCommand env) [] (f @ ''.py'') c i"

definition runPHPWithInput ::
  "environment \<Rightarrow> string \<Rightarrow> string \<Rightarrow> string list \<Rightarrow> host \<Rightarrow> RunResult outcome \<times> host" where
  "runPHPWithInput env c f i = run_script env ''php'' [] (f @ ''.php'') c i"

definition runGoWithInput ::
  "environment \<Rightarrow> string \<Rightarrow> string \<Rightarrow> string list \<Rightarrow> host \<Rightarrow> RunResult outcome \<times> host" where
  "runGoWithInput env c f i = run_script env ''go'' [''run''] (f @ ''.go'') c i"

definition compileAndRun ::
  "environment \<Rightarrow> string \<Rightarrow> string \<Rightarrow> string \<Rightarrow> string list \<Rightarrow> host
     \<Rightarrow> RunResult outcome \<times> host" where
  "compileAndRun env src exe compile inputs h =
     (let (r, h') = run_exec env compile h
      in case failure r of
           Some msg \<Rightarrow> (Returned \<lparr>success = False, output = js_or (stderr_text r) msg\<rparr>, h')
         | None \<Rightarrow> spawn_and_wait env exe [] inputs h')"

definition compile_command :: "string \<Rightarrow> string \<Rightarrow> string \<Rightarrow> string" where
  "compile_command cc src exe = cc @ '' '' @ dq @ src @ dq @ '' -o '' @ dq @ exe @ dq"

definition runCWithInput ::
  "environment \<Rightarrow> string \<Rightarrow> string \<Rightarrow> string list \<Rightarrow> host \<Rightarrow> RunResult outcome \<times> host" where
  "runCWithInput env c f i h =
     (case writeFileSync (f @ ''.c'') c h of
        Inl e \<Rightarrow> (Thrown e, h)
      | Inr h' \<Rightarrow>
          compileAndRun env (f @ ''.c'') (f @ ''.exe'')
            (compile_command ''gcc'' (f @ ''.c'') (f @ ''.exe'')) i h')"

definition runCppWithInput ::
  "environment \<Rightarrow> string \<Rightarrow> string \<Rightarrow> string list \<Rightarrow> host \<Rightarrow> RunResult outcome \<times> host" where
  "runCppWithInput env c f i h =
     (case writeFileSync (f @ ''.cpp'') c h of
        Inl e \<Rightarrow> (Thrown e, h)
      | Inr h' \<Rightarrow>
          compileAndRun env (f @ ''.cpp'') (f @ ''.exe'')
            (compile_command ''g++'' (f @ ''.cpp'') (f @ ''.exe'')) i h')"

text \<open>
  \<open>code.match(/public\s+class\s+(\w+)/)\<close>: the first place where \<open>public\<close>, white space,
  \<open>class\<close>, white space and a word follow each other; the word is the class name. Both
  \<open>\s+\<close> are followed by a character that is no white space, and \<open>\w+\<close> is greedy, so
  each takes all it can.
\<close>

definition match_here :: "string \<Rightarrow> string option" where
  "match_here s =
     (if take 6 s = ''public'' \<and> takeWhile is_space (drop 6 s) \<noteq> [] then
        (let s1 = dropWhile is_space (drop 6 s)
         in if take 5 s1 = ''class'' \<and> takeWhile is_space (drop 5 s1) \<noteq> [] then
              (let w = takeWhile is_word (dropWhile is_space (drop 5 s1))
               in if w \<noteq> [] then Some w else None)
            else None)
      else None)"

fun public_class :: "string \<Rightarrow> string option" where
  "public_class [] = None"
| "public_class (c # s) =
     (case match_here (c # s) of Some w \<Rightarrow> Some w | None \<Rightarrow> public_class s)"

definition runJavaWithInput ::
  "environment \<Rightarrow> string \<Rightarrow> string \<Rightarrow> string list \<Rightarrow> host \<Rightarrow> RunResult outcome \<times> host" where
  "runJavaWithInput env code base inputs h =
     (case public_class code of
        None \<Rightarrow> (Returned \<lparr>success = False, output = ''No public class found''\<rparr>, h)
      | Some className \<Rightarrow>
          (let f = path_join (tempDir h) (className @ ''.java'')
           in case writeFileSync f code h of
                Inl e \<Rightarrow> (Returned \<lparr>success = False, output = message e\<rparr>, h)
              | Inr h1 \<Rightarrow>
                  (let (r, h2) = run_exec env (''javac '' @ dq @ f @ dq) h1
                   in case failure r of
                        Some msg \<Rightarrow>
                          (Returned \<lparr>success = False,
                             output = js_or (stderr_text r)
                                        (js_or (stdout_text r) ''Compilation failed'')\<rparr>, h2)
                      | None \<Rightarrow>
                          spawn_and_wait env
                            (''java -cp '' @ dq @ tempDir h @ dq @ '' '' @ className) [] inputs h2)))"

definition runners ::
  "string \<Rightarrow> (environment \<Rightarrow> string \<Rightarrow> string \<Rightarrow> string list \<Rightarrow> host
     \<Rightarrow> RunResult outcome \<times> host) option" where
  "runners language =
     (if language = ''javascript'' then Some runJavaScriptWithInput
      else if language = ''python'' then Some runPythonWithInput
      else if language = ''java'' then Some runJavaWithInput
      else if language = ''c'' then Some runCWithInput
      else if language = ''cpp'' then Some runCppWithInput
      else if language = ''go'' then Some runGoWithInput
      else if language = ''php'' then Some runPHPWithInput
      else None)"

definition not_supported :: "string \<Rightarrow> string" where
  "not_supported language =
     ''Language '' @ dq @ language @ dq @ '' is not supported. Supported languages: '' @
     join '', '' getSupportedLanguages"

definition no_runner :: "string \<Rightarrow> string" where
  "no_runner language = ''No runner found for language '' @ dq @ language @ dq"

text \<open>The base path of a batch run: \<open>path.join(tempDir, `temp_${t}`)\<close> with
  \<open>t = Date.now()\<close>.\<close>

definition run_base :: "host \<Rightarrow> nat \<Rightarrow> string" where
  "run_base h t = path_join (tempDir h) (''temp_'' @ decimal t)"

text \<open>
  \<open>runCodeWithInput(language, code, inputs)\<close>, called when \<open>Date.now()\<close> is \<open>t\<close>. The
  \<open>try\<close> has a \<open>finally\<close> and no \<open>catch\<close>: what the runner throws goes on to the caller
  after the cleanup, and what the cleanup throws replaces the runner's result.
\<close>

definition runCodeWithInput ::
  "environment \<Rightarrow> nat \<Rightarrow> string \<Rightarrow> string \<Rightarrow> string list \<Rightarrow> host
     \<Rightarrow> RunResult outcome \<times> host" where
  "runCodeWithInput env t language code inputs h =
     (if language \<notin> set getSupportedLanguages then
        (Returned \<lparr>success = False, output = not_supported language\<rparr>, h)
      else
        (let base = run_base h t;
             (r, h1) = (case runners language of
                          None \<Rightarrow> (Returned \<lparr>success = False, output = no_runner language\<rparr>, h)
                        | Some run \<Rightarrow> run env code base inputs h)
         in case cleanupTempFiles base h1 of
              (Some e, h2) \<Rightarrow> (Thrown e, h2)
            | (None, h2) \<Rightarrow> (r, h2)))"

section \<open>Interactive sessions\<close>

text \<open>
  A session object of \<open>registerRunSession\<close>. The closures it creates (\<open>resetTimer\<close>, the
  \<open>data\<close> and \<open>close\<close> listeners) hold the object and the \<open>sessionId\<close> they were
  created with, so the id is kept with the object. \<open>cleanup\<close> is the list of files the
  closure \<open>cleanupFiles(files)\<close> unlinks, or \<open>None\<close> for \<open>null\<close>; \<open>session.timer\<close> is the
  handle of the idle timer. \<open>registerRunSession\<close> is reached with a truthy \<open>proc\<close> only,
  and nothing assigns \<open>session.proc\<close> or \<open>session.resetTimer\<close> afterwards.
\<close>

record session =
  sessionId :: string
  proc :: proc
  cleanup :: "string list option"
  session_timer :: "nat option"

text \<open>The timer callbacks: \<open>stopRunSession(sessionId, true)\<close> of the idle timer, and
  \<open>session.proc.kill('SIGKILL')\<close> of \<open>stopRunSession\<close>, which holds the session object.\<close>

datatype task = IdleTimeout string | Escalate nat

text \<open>What \<open>mainWindow.webContents.send\<close> sends: \<open>run-output\<close> and \<open>run-exit\<close>.\<close>

datatype ipc_message =
    RunOutput string stream string
  | RunExit string "int option" "string option"

text \<open>What an IPC handler returns: \<open>{ok}\<close>, \<open>{error}\<close> or \<open>{sessionId}\<close>.\<close>

datatype reply = OkReply bool | ErrorReply string | SessionReply string

text \<open>
  The state of the main process: the clock, the pending timers, the session objects (by
  reference), the map \<open>runSessions\<close> from ids to session objects, whether \<open>mainWindow\<close>
  and its \<open>webContents\<close> are there, the messages sent to it, and the host.
\<close>

record world =
  now :: nat
  timers :: "task entry list"
  next_handle :: nat
  objects :: "nat \<Rightarrow> session option"
  next_ref :: nat
  runSessions :: "string \<Rightarrow> nat option"
  mainWindow :: bool
  sent :: "ipc_message list"
  machine :: host

definition createSessionId :: "nat \<Rightarrow> string \<Rightarrow> string" where
  "createSessionId t rnd = ''run_'' @ decimal t @ ''_'' @ rnd"

definition sendRunOutput :: "string \<Rightarrow> stream \<Rightarrow> string \<Rightarrow> world \<Rightarrow> world" where
  "sendRunOutput sid type data w =
     (if mainWindow w then w\<lparr>sent := sent w @ [RunOutput sid type data]\<rparr> else w)"

definition sendRunExit :: "string \<Rightarrow> int option \<Rightarrow> string option \<Rightarrow> world \<Rightarrow> world" where
  "sendRunExit sid code sg w =
     (if mainWindow w then w\<lparr>sent := sent w @ [RunExit sid code sg]\<rparr> else w)"

definition set_timer :: "task \<Rightarrow> nat \<Rightarrow> world \<Rightarrow> nat \<times> world" where
  "set_timer cb delay w =
     (next_handle w,
      w\<lparr>timers := timers w @ [(next_handle w, now w + delay, cb)],
        next_handle := Suc (next_handle w)\<rparr>)"

definition clear_timer :: "nat option \<Rightarrow> world \<Rightarrow> world" where
  "clear_timer h w = w\<lparr>timers := cancel h (timers w)\<rparr>"

text \<open>\<open>resetTimer\<close> of the session object \<open>r\<close>.\<close>

definition resetTimer :: "nat \<Rightarrow> world \<Rightarrow> world" where
  "resetTimer r w =
     (case objects w r of
        None \<Rightarrow> w
      | Some s \<Rightarrow>
          (let (h, w') = set_timer (IdleTimeout (sessionId s)) 120000
                           (clear_timer (session_timer s) w)
           in w'\<lparr>objects := (objects w')(r \<mapsto> s\<lparr>session_timer := Some h\<rparr>)\<rparr>))"

text \<open>
  \<open>session.proc.kill(sg)\<close>: a child that runs is sent the signal, and \<open>proc.killed\<close>
  is set. Once the child has exited (also before its \<open>close\<close> event) \<open>kill\<close> sends
  nothing, returns \<open>false\<close> and leaves \<open>proc.killed\<close> as it is.
\<close>

definition kill :: "nat \<Rightarrow> signal \<Rightarrow> world \<Rightarrow> world" where
  "kill r sg w =
     (case objects w r of
        None \<Rightarrow> w
      | Some s \<Rightarrow>
          (if phase (proc s) \<noteq> Running then w
           else w\<lparr>objects := (objects w)(r \<mapsto>
                  s\<lparr>proc := (proc s)\<lparr>proc_killed := True, signals := signals (proc s) @ [sg]\<rparr>\<rparr>)\<rparr>))"

definition registerRunSession :: "string \<Rightarrow> proc \<Rightarrow> string list option \<Rightarrow> world \<Rightarrow> world" where
  "registerRunSession sid p cl w =
     (let r = next_ref w
      in resetTimer r
           (w\<lparr>next_ref := Suc r,
              objects := (objects w)(r \<mapsto>
                \<lparr>sessionId = sid, proc = p, cleanup = cl, session_timer = None\<rparr>),
              runSessions := (runSessions w)(sid \<mapsto> r)\<rparr>))"

text \<open>The listeners of \<open>proc.stdout\<close> and \<open>proc.stderr\<close> for \<open>data\<close>.\<close>

definition on_data :: "nat \<Rightarrow> stream \<Rightarrow> string \<Rightarrow> world \<Rightarrow> world" where
  "on_data r type data w =
     (case objects w r of
        None \<Rightarrow> w
      | Some s \<Rightarrow> resetTimer r (sendRunOutput (sessionId s) type data w))"

text \<open>The listener of \<open>proc\<close> for \<open>close\<close>.\<close>

definition on_close :: "nat \<Rightarrow> int option \<Rightarrow> string option \<Rightarrow> world \<Rightarrow> world" where
  "on_close r code sg w =
     (case objects w r of
        None \<Rightarrow> w
      | Some s \<Rightarrow>
          (let w1 = clear_timer (session_timer s) w;
               w2 = (case cleanup s of
                       None \<Rightarrow> w1
                     | Some files \<Rightarrow> w1\<lparr>machine := fold safeUnlink files (machine w1)\<rparr>);
               w3 = w2\<lparr>runSessions := (runSessions w2)(sessionId s := None)\<rparr>
           in sendRunExit (sessionId s) code sg w3))"

text \<open>\<open>stopRunSession(sessionId, silent)\<close>: both values of \<open>silent\<close> return \<open>true\<close>.\<close>

definition stopRunSession :: "string \<Rightarrow> bool \<Rightarrow> world \<Rightarrow> bool \<times> world" where
  "stopRunSession sid silent w =
     (case runSessions w sid of
        None \<Rightarrow> (False, w)
      | Some r \<Rightarrow> (True, snd (set_timer (Escalate r) 1000 (kill r SIGTERM w))))"

fun run_task :: "task \<Rightarrow> world \<Rightarrow> world" where
  "run_task (IdleTimeout sid) w = snd (stopRunSession sid True w)"
| "run_task (Escalate r) w = kill r SIGKILL w"

text \<open>The handler of \<open>send-input\<close>; \<open>input\<close> is \<open>None\<close> for \<open>null\<close> or \<open>undefined\<close>.\<close>

definition no_active_session :: string where
  "no_active_session = ''No active session.''"

definition send_input :: "string \<Rightarrow> string option \<Rightarrow> world \<Rightarrow> reply \<times> world" where
  "send_input sid input w =
     (case runSessions w sid of
        None \<Rightarrow> (ErrorReply no_active_session, w)
      | Some r \<Rightarrow>
          (case objects w r of
             None \<Rightarrow> (ErrorReply no_active_session, w)
           | Some s \<Rightarrow>
               (case stdin (proc s) of
                  None \<Rightarrow> (ErrorReply no_active_session, w)
                | Some io \<Rightarrow>
                    if proc_killed (proc s) \<or> \<not> writable io then (ErrorReply no_active_session, w)
                    else
                      (case write_fault io of
                         Some msg \<Rightarrow> (ErrorReply msg, w)
                       | None \<Rightarrow>
                           (OkReply True,
                            resetTimer r
                              (w\<lparr>objects := (objects w)(r \<mapsto>
                                   s\<lparr>proc := (proc s)\<lparr>stdin := Some
                                        (io\<lparr>written := written io @
                                           [(case input of None \<Rightarrow> [] | Some x \<Rightarrow> x) @ nl]\<rparr>)\<rparr>\<rparr>)\<rparr>))))))"

text \<open>The handler of \<open>stop-run\<close>.\<close>

definition stop_run :: "string \<Rightarrow> world \<Rightarrow> reply \<times> world" where
  "stop_run sid w = (let (ok, w') = stopRunSession sid False w in (OkReply ok, w'))"

subsection \<open>Starting a session\<close>

text \<open>\<open>execPromise(command)\<close>: rejects with \<open>stderr || stdout || error.message\<close>.\<close>

definition execPromise :: "environment \<Rightarrow> string \<Rightarrow> host \<Rightarrow> (thrown + string) \<times> host" where
  "execPromise env command h =
     (let (r, h') = run_exec env command h
      in case failure r of
           Some msg \<Rightarrow> (Inl (Text (js_or (stderr_text r) (js_or (stdout_text r) msg))), h')
         | None \<Rightarrow> (Inr (js_or (stdout_text r) (stderr_text r)), h'))"

definition spawn :: "environment \<Rightarrow> string \<Rightarrow> string list \<Rightarrow> host \<Rightarrow> (thrown + proc option) \<times> host" where
  "spawn env cmd args h =
     (case spawn_proc env cmd args of
        Inl e \<Rightarrow> (Inl e, h)
      | Inr p \<Rightarrow> (Inr p, h\<lparr>launched := launched h @ [Spawn cmd args]\<rparr>))"

text \<open>
  How the \<open>switch\<close> of \<open>startRunSession\<close> ends: with a \<open>return\<close> of an error, with an
  exception (caught below, with the value \<open>cleanup\<close> has then), or past the \<open>switch\<close>
  with \<open>proc\<close> and \<open>cleanup\<close> set.
\<close>

datatype prepared =
    Refused string
  | Raised thrown "string list option"
  | Ready "proc option" "string list option"

definition start_script ::
  "environment \<Rightarrow> string \<Rightarrow> string list \<Rightarrow> string \<Rightarrow> string \<Rightarrow> host \<Rightarrow> prepared \<times> host" where
  "start_script env cmd pre file code h =
     (case writeFileSync file code h of
        Inl e \<Rightarrow> (Raised e None, h)
      | Inr h1 \<Rightarrow>
          (case spawn env cmd (pre @ [file]) h1 of
             (Inl e, h2) \<Rightarrow> (Raised e None, h2)
           | (Inr p, h2) \<Rightarrow> (Ready p (Some [file]), h2)))"

definition start_compiled ::
  "environment \<Rightarrow> string \<Rightarrow> string \<Rightarrow> string \<Rightarrow> string \<Rightarrow> host \<Rightarrow> prepared \<times> host" where
  "start_compiled env cc src out_file code h =
     (case writeFileSync src code h of
        Inl e \<Rightarrow> (Raised e None, h)
      | Inr h1 \<Rightarrow>
          (case execPromise env (compile_command cc src out_file) h1 of
             (Inl e, h2) \<Rightarrow> (Raised e None, h2)
           | (Inr _, h2) \<Rightarrow>
               (case spawn env out_file [] h2 of
                  (Inl e, h3) \<Rightarrow> (Raised e None, h3)
                | (Inr p, h3) \<Rightarrow> (Ready p (Some [src, out_file]), h3))))"

definition no_public_class :: string where
  "no_public_class = ''No public class found. Java requires a public class name to run.''"

definition start_java :: "environment \<Rightarrow> string \<Rightarrow> host \<Rightarrow> prepared \<times> host" where
  "start_java env code h =
     (case public_class code of
        None \<Rightarrow> (Refused no_public_class, h)
      | Some className \<Rightarrow>
          (let file = path_join (tempDir h) (className @ ''.java'')
           in case writeFileSync file code h of
                Inl e \<Rightarrow> (Raised e None, h)
              | Inr h1 \<Rightarrow>
                  (case execPromise env (''javac '' @ dq @ file @ dq) h1 of
                     (Inl e, h2) \<Rightarrow> (Raised e None, h2)
                   | (Inr _, h2) \<Rightarrow>
                       (case spawn env ''java'' [''-cp'', tempDir h, className] h2 of
                          (Inl e, h3) \<Rightarrow> (Raised e None, h3)
                        | (Inr p, h3) \<Rightarrow>
                            (Ready p
                               (Some [file, path_join (tempDir h) (className @ ''.class'')]),
                             h3)))))"

definition prepare :: "environment \<Rightarrow> string \<Rightarrow> string \<Rightarrow> string \<Rightarrow> host \<Rightarrow> prepared \<times> host" where
  "prepare env language code base h =
     (if language = ''javascript'' then start_script env ''node'' [] (base @ ''.js'') code h
      else if language = ''python'' then
        start_script env (getPythonCommand env) [] (base @ ''.py'') code h
      else if language = ''php'' then start_script env ''php'' [] (base @ ''.php'') code h
      else if language = ''go'' then start_script env ''go'' [''run''] (base @ ''.go'') code h
      else if language = ''c'' then
        start_compiled env ''gcc'' (base @ ''.c'')
          (if win32 env then base @ ''.exe'' else base @ ''.out'') code h
      else if language = ''cpp'' then
        start_compiled env ''g++'' (base @ ''.cpp'')
          (if win32 env then base @ ''.exe'' else base @ ''.out'') code h
      else if language = ''java'' then start_java env code h
      else (Refused (no_runner language), h))"

text \<open>The base path of a session: \<open>path.join(tempDir, `temp_${Date.now()}_${rnd}`)\<close>, where
  \<open>rnd\<close> is \<open>Math.random().toString(36).slice(2, 6)\<close>.\<close>

definition session_base :: "host \<Rightarrow> nat \<Rightarrow> string \<Rightarrow> string" where
  "session_base h t rnd = path_join (tempDir h) (''temp_'' @ decimal t @ ''_'' @ rnd)"

definition run_cleanup :: "string list option \<Rightarrow> host \<Rightarrow> host" where
  "run_cleanup cl h = (case cl of None \<Rightarrow> h | Some files \<Rightarrow> fold safeUnlink files h)"

text \<open>
  \<open>startRunSession(language, code)\<close>; \<open>t1\<close> and \<open>rnd1\<close> are what \<open>Date.now()\<close> and the
  random suffix are in \<open>createSessionId\<close>, \<open>t2\<close> and \<open>rnd2\<close> what they are for the base
  path. The compilation it awaits is taken in one step.
\<close>

definition startRunSession ::
  "environment \<Rightarrow> nat \<Rightarrow> string \<Rightarrow> nat \<Rightarrow> string \<Rightarrow> string \<Rightarrow> string \<Rightarrow> world
     \<Rightarrow> reply \<times> world" where
  "startRunSession env t1 rnd1 t2 rnd2 language code w =
     (if language \<notin> set getSupportedLanguages then (ErrorReply (not_supported language), w)
      else
        (let sid = createSessionId t1 rnd1;
             base = session_base (machine w) t2 rnd2
         in case prepare env language code base (machine w) of
              (Refused msg, h) \<Rightarrow> (ErrorReply msg, w\<lparr>machine := h\<rparr>)
            | (Raised e cl, h) \<Rightarrow> (ErrorReply (toString e), w\<lparr>machine := run_cleanup cl h\<rparr>)
            | (Ready None cl, h) \<Rightarrow>
                (ErrorReply ''Failed to start process.'', w\<lparr>machine := run_cleanup cl h\<rparr>)
            | (Ready (Some p) cl, h) \<Rightarrow>
                (SessionReply sid, registerRunSession sid p cl (w\<lparr>machine := h\<rparr>))))"

subsection \<open>The event loop of the main process\<close>

fun task_weight :: "task entry \<Rightarrow> nat" where
  "task_weight (h, t, IdleTimeout sid) = 2"
| "task_weight (h, t, Escalate r) = 1"

definition timer_load :: "world \<Rightarrow> nat" where
  "timer_load w = sum_list (map task_weight (timers w))"

text \<open>One timer runs, at the time it is due.\<close>

definition fire_timer :: "task entry \<Rightarrow> world \<Rightarrow> world" where
  "fire_timer e w =
     run_task (callback_of e) (w\<lparr>timers := remove1 e (timers w), now := max (now w) (due_of e)\<rparr>)"

lemma task_weight_pos: "0 < task_weight e"
  by (cases e rule: task_weight.cases) auto

lemma task_load_remove1:
  "e \<in> set es \<Longrightarrow>
   sum_list (map task_weight (remove1 e es)) + task_weight e = sum_list (map task_weight es)"
  by (induction es) auto

lemma timers_kill: "timers (kill r sg w) = timers w"
  by (simp add: kill_def split: option.splits)

lemma timers_run_task:
  "timer_load (run_task cb w) \<le> timer_load w + (case cb of IdleTimeout _ \<Rightarrow> 1 | Escalate _ \<Rightarrow> 0)"
  by (cases cb)
     (auto simp: timer_load_def stopRunSession_def set_timer_def timers_kill split: option.splits)

lemma timer_load_fire:
  assumes "e \<in> set (timers w)"
  shows "timer_load (fire_timer e w) < timer_load w"
proof -
  obtain h t cb where e: "e = (h, t, cb)" by (cases e)
  let ?w = "w\<lparr>timers := remove1 e (timers w), now := max (now w) (due_of e)\<rparr>"
  have "timer_load ?w + task_weight e = timer_load w"
    using task_load_remove1 [OF assms] by (simp add: timer_load_def)
  moreover have "timer_load (fire_timer e w)
      \<le> timer_load ?w + (case cb of IdleTimeout _ \<Rightarrow> 1 | Escalate _ \<Rightarrow> 0)"
    unfolding fire_timer_def using timers_run_task [of cb ?w] by (simp add: e callback_of_def)
  ultimately show ?thesis
    by (cases cb) (auto simp: e)
qed

text \<open>Time passes up to \<open>limit\<close>: the timers due by then run, in the order they are due.\<close>

definition due_timers :: "nat \<Rightarrow> world \<Rightarrow> task entry list" where
  "due_timers limit w = filter (\<lambda>e. due_of e \<le> limit) (timers w)"

function run_timers :: "nat \<Rightarrow> world \<Rightarrow> world" where
  "run_timers limit w =
     (case earliest (due_timers limit w) of
        None \<Rightarrow> w
      | Some e \<Rightarrow> run_timers limit (fire_timer e w))"
  by pat_completeness auto
termination
proof (relation "measure (\<lambda>(limit, w). timer_load w)")
  fix limit w e
  assume "earliest (due_timers limit w) = Some e"
  then have "e \<in> set (timers w)"
    using earliest_mem [of "due_timers limit w" e] by (simp add: due_timers_def)
  then show "((limit, fire_timer e w), (limit, w)) \<in> measure (\<lambda>(limit, w). timer_load w)"
    by (simp add: timer_load_fire)
qed simp

declare run_timers.simps [simp del]

definition elapse :: "nat \<Rightarrow> world \<Rightarrow> world" where
  "elapse d w = (run_timers (now w + d) w)\<lparr>now := now w + d\<rparr>"

text \<open>
  What can happen to the main process: the three IPC calls, a chunk of a session's child,
  its \<open>exit\<close> and its \<open>close\<close> event, the child's \<open>stdin\<close> going away, and time
  passing. A child emits \<open>exit\<close> when the process has ended and \<open>close\<close> once, after
  its streams have ended too: chunks can still arrive between the two, and a child that
  has closed emits nothing more. At \<open>close\<close> its \<open>stdin\<close> is no longer writable. No
  listener is registered for \<open>exit\<close>; all it changes is what \<open>kill\<close> does.
\<close>

datatype event =
    StartRun nat string nat string string string
  | SendInput string "string option"
  | StopRun string
  | ProcData nat stream string
  | ProcExit nat
  | ProcClose nat "int option" "string option"
  | StdinDown nat
  | Elapse nat

definition stdin_down :: "proc \<Rightarrow> proc" where
  "stdin_down p = p\<lparr>stdin := map_option (\<lambda>io. io\<lparr>writable := False\<rparr>) (stdin p)\<rparr>"

definition child_exited :: "nat \<Rightarrow> world \<Rightarrow> world" where
  "child_exited r w =
     (case objects w r of
        None \<Rightarrow> w
      | Some s \<Rightarrow> w\<lparr>objects := (objects w)(r \<mapsto> s\<lparr>proc := (proc s)\<lparr>phase := Exited\<rparr>\<rparr>)\<rparr>)"

definition child_ended :: "nat \<Rightarrow> world \<Rightarrow> world" where
  "child_ended r w =
     (case objects w r of
        None \<Rightarrow> w
      | Some s \<Rightarrow> w\<lparr>objects := (objects w)(r \<mapsto> s\<lparr>proc := stdin_down ((proc s)\<lparr>phase := Closed\<rparr>)\<rparr>)\<rparr>)"

text \<open>The child of the session object \<open>r\<close> still runs; it has not closed yet.\<close>

definition alive :: "nat \<Rightarrow> world \<Rightarrow> bool" where
  "alive r w = (case objects w r of None \<Rightarrow> False | Some s \<Rightarrow> phase (proc s) = Running)"

definition unclosed :: "nat \<Rightarrow> world \<Rightarrow> bool" where
  "unclosed r w = (case objects w r of None \<Rightarrow> False | Some s \<Rightarrow> phase (proc s) \<noteq> Closed)"

fun handle :: "environment \<Rightarrow> event \<Rightarrow> world \<Rightarrow> world" where
  "handle env (StartRun t1 rnd1 t2 rnd2 language code) w =
     snd (startRunSession env t1 rnd1 t2 rnd2 language code w)"
| "handle env (SendInput sid input) w = snd (send_input sid input w)"
| "handle env (StopRun sid) w = snd (stop_run sid w)"
| "handle env (ProcData r type data) w = (if unclosed r w then on_data r type data w else w)"
| "handle env (ProcExit r) w = (if alive r w then child_exited r w else w)"
| "handle env (ProcClose r code sg) w =
     (if unclosed r w then on_close r code sg (child_ended r w) else w)"
| "handle env (StdinDown r) w =
     (case objects w r of
        None \<Rightarrow> w
      | Some s \<Rightarrow> w\<lparr>objects := (objects w)(r \<mapsto> s\<lparr>proc := stdin_down (proc s)\<rparr>)\<rparr>)"
| "handle env (Elapse d) w = elapse d w"

definition run_events :: "environment \<Rightarrow> event list \<Rightarrow> world \<Rightarrow> world" where
  "run_events env evs w = fold (handle env) evs w"

definition initial_world :: "host \<Rightarrow> world" where
  "initial_world h =
     \<lparr>now = 0, timers = [], next_handle = 0, objects = (\<lambda>_. None), next_ref = 0,
      runSessions = (\<lambda>_. None), mainWindow = True, sent = [], machine = h\<rparr>"

section \<open>Notions used in the statements\<close>

text \<open>The scripted inputs with their times: input \<open>x\<close> at \<open>x * 100\<close>, followed by a line feed.\<close>

definition script :: "string list \<Rightarrow> (nat \<times> string) list" where
  "script inputs = map (\<lambda>(x, i). (x * 100, i @ nl)) (enumerate 0 inputs)"


text \<open>
  The delivery of scripted inputs as the specification words it: every input is written at
  its multiple of 100, and the stream is ended 100 after the last input (at once when there
  is none).
\<close>

definition spec_input_delivery :: "string list \<Rightarrow> exec_state \<Rightarrow> bool" where
  "spec_input_delivery inputs st \<longleftrightarrow>
     stdin_writes st = script inputs \<and>
     stdin_ends st = (if inputs = [] then [0] else [(length inputs - 1) * 100 + 100])"


text \<open>The input stream and the signals of the child of a session object.\<close>

definition stdin_of :: "nat \<Rightarrow> world \<Rightarrow> stdin_stream option" where
  "stdin_of r w = (case objects w r of None \<Rightarrow> None | Some s \<Rightarrow> stdin (proc s))"


text \<open>
  \<open>send-input\<close> as the specification words it: the call is accepted (the text is
  written, the answer is \<open>{ok}\<close>) unless the session is missing or its input stream is
  closed or not writable.
\<close>

definition spec_send_accepted :: "string \<Rightarrow> world \<Rightarrow> bool" where
  "spec_send_accepted sid w =
     (case runSessions w sid of
        None \<Rightarrow> False
      | Some r \<Rightarrow> (case stdin_of r w of None \<Rightarrow> False | Some io \<Rightarrow> writable io))"

text \<open>
  A session object that is in use: it has been allocated, \<open>runSessions\<close> points to it
  under its own id only, and its idle timer is one that has been handed out. What starts
  a session under a given id, which messages are \<open>run-exit\<close>, and which events are the
  \<open>close\<close> of a child.
\<close>

definition registered :: "nat \<Rightarrow> session \<Rightarrow> world \<Rightarrow> bool" where
  "registered r s w \<longleftrightarrow>
     objects w r = Some s \<and> r < next_ref w \<and>
     (\<forall>x. runSessions w x = Some r \<longrightarrow> x = sessionId s) \<and>
     (\<exists>h. session_timer s = Some h \<and> h < next_handle w)"

fun starts :: "string \<Rightarrow> event \<Rightarrow> bool" where
  "starts sid (StartRun t1 rnd1 t2 rnd2 language code) = (createSessionId t1 rnd1 = sid)"
| "starts sid ev = False"

fun is_exit :: "ipc_message \<Rightarrow> bool" where
  "is_exit (RunExit sid code sg) = True"
| "is_exit (RunOutput sid type data) = False"

fun closes :: "event \<Rightarrow> bool" where
  "closes (ProcClose r code sg) = True"
| "closes ev = False"

section \<open>A concrete environment\<close>

definition demo_child :: child where
  "demo_child = \<lparr>chunks = [(3, Stdout, ''ok'')], close_at = 5, close_code = Some 0\<rparr>"

definition demo_stdin :: stdin_stream where
  "demo_stdin = \<lparr>writable = True, write_fault = None, written = []\<rparr>"

definition demo_proc :: proc where
  "demo_proc = \<lparr>proc_killed = False, phase = Running, stdin = Some demo_stdin, signals = []\<rparr>"

definition demo_env :: environment where
  "demo_env =
     \<lparr>win32 = False, execSync_ok = (\<lambda>_. True),
      exec_outcome = (\<lambda>command.
        \<lparr>failure = None, stdout_text = [], stderr_text = [],
         products = (if take 5 command = ''javac'' then [(''Main.class'', ''bytecode'')] else [])\<rparr>),
      spawn_child = (\<lambda>cmd args. demo_child),
      spawn_proc = (\<lambda>cmd args. Inr (Some demo_proc))\<rparr>"

definition demo_host :: host where
  "demo_host =
     \<lparr>tempDir = ''/tmp/proworldz-lab'', present = True, entries = [], busy = [], launched = []\<rparr>"


text \<open>A main process with one registered session.\<close>

definition demo_world :: world where
  "demo_world = registerRunSession ''run_7_ab12cd'' demo_proc (Some [''/tmp/proworldz-lab/temp_7_x9yz.js''])
     ((initial_world demo_host)\<lparr>machine := demo_host\<lparr>entries := [(''temp_7_x9yz.js'', ''1'')]\<rparr>\<rparr>)"

section \<open>Predicates on the states of the model\<close>

subsection \<open>Kinds of pending callbacks\<close>

text \<open>
  The pending callbacks of \<open>execWithInput\<close> are told apart by the source line that
  registered them.
\<close>

definition is_write :: "callback entry \<Rightarrow> bool" where
  "is_write e = (case callback_of e of WriteInput _ \<Rightarrow> True | _ \<Rightarrow> False)"

definition is_end :: "callback entry \<Rightarrow> bool" where
  "is_end e = (callback_of e = EndInput)"

definition is_timeout :: "callback entry \<Rightarrow> bool" where
  "is_timeout e = (callback_of e = Timeout)"

definition is_forcekill :: "callback entry \<Rightarrow> bool" where
  "is_forcekill e = (callback_of e = ForceKill)"

definition is_close :: "callback entry \<Rightarrow> bool" where
  "is_close e = (case callback_of e of ChildClose _ \<Rightarrow> True | _ \<Rightarrow> False)"

definition is_data :: "stream \<Rightarrow> callback entry \<Rightarrow> bool" where
  "is_data k e = (case callback_of e of ChildData k' _ \<Rightarrow> k' = k | _ \<Rightarrow> False)"


definition payload :: "callback entry \<Rightarrow> string" where
  "payload e = (case callback_of e of ChildData _ d \<Rightarrow> d | WriteInput i \<Rightarrow> i @ nl | _ \<Rightarrow> [])"

definition write_of :: "callback entry \<Rightarrow> nat \<times> string" where
  "write_of e = (due_of e, payload e)"

text \<open>The same on an agenda entry without its handle.\<close>

definition q_write :: "nat \<times> callback \<Rightarrow> bool" where
  "q_write x = is_write (0, x)"

definition q_data :: "stream \<Rightarrow> nat \<times> callback \<Rightarrow> bool" where
  "q_data k x = is_data k (0, x)"

definition q_write_of :: "nat \<times> callback \<Rightarrow> nat \<times> string" where
  "q_write_of x = write_of (0, x)"

subsection \<open>What execWithInput registers at the spawn\<close>

text \<open>
  The \<open>inputs.forEach\<close> loop with the closing \<open>stdin.end()\<close>, and the events the child
  process will raise, as lists of due time and callback.
\<close>

definition scripted :: "string list \<Rightarrow> (nat \<times> callback) list" where
  "scripted inputs =
     (if inputs \<noteq> [] then
        map (\<lambda>(x, i). (x * 100, WriteInput i)) (enumerate 0 inputs) @
        [(length inputs * 100 + 100, EndInput)]
      else [])"

definition child_events :: "child \<Rightarrow> (nat \<times> callback) list" where
  "child_events ch =
     map (\<lambda>(t, k, d). (t, ChildData k d)) (chunks ch) @ [(close_at ch, ChildClose (close_code ch))]"

subsection \<open>Invariants of the run of execWithInput\<close>

text \<open>The handle kept in \<open>timer\<close> belongs to the timeout timers and to nothing else.\<close>

definition timer_wf :: "exec_state \<Rightarrow> bool" where
  "timer_wf st \<longleftrightarrow>
     (\<forall>e\<in>set (agenda st). (Some (handle_of e) = timer st) = is_timeout e) \<and>
     (\<forall>h. timer st = Some h \<longrightarrow> h < fresh st)"

text \<open>Before \<open>setTimeout(..., timeoutMs)\<close>: no timeout timer yet.\<close>

definition untimed :: "exec_state \<Rightarrow> bool" where
  "untimed st \<longleftrightarrow>
     timer st = None \<and> (\<forall>e\<in>set (agenda st). \<not> is_timeout e \<and> handle_of e < fresh st)"

text \<open>Nothing has happened to the child yet.\<close>

definition quiescent :: "exec_state \<Rightarrow> bool" where
  "quiescent st \<longleftrightarrow>
     out st = [] \<and> err st = [] \<and> \<not> killed st \<and> kills st = [] \<and> stdin_writes st = [] \<and>
     resolved st = None"

text \<open>Either the promise is resolved or the \<open>close\<close> event of the child is still to come.\<close>

definition closing :: "exec_state \<Rightarrow> bool" where
  "closing st \<longleftrightarrow> resolved st \<noteq> None \<or> (\<exists>e\<in>set (agenda st). is_close e)"

text \<open>The child closes before the timeout can fire: no signal is ever sent.\<close>

definition quiet :: "exec_state \<Rightarrow> bool" where
  "quiet st \<longleftrightarrow>
     timer_wf st \<and> \<not> killed st \<and> kills st = [] \<and>
     (\<forall>e\<in>set (agenda st). \<not> is_forcekill e) \<and>
     (\<forall>e\<in>set (agenda st). is_timeout e \<longrightarrow>
        (\<exists>c\<in>set (agenda st). is_close c \<and> due_of c < due_of e))"



text \<open>
  The lines written to stdin so far, followed by the writes still pending, are the
  scripted lines \<open>L\<close>.
\<close>

definition in_order :: "(nat \<times> string) list \<Rightarrow> exec_state \<Rightarrow> bool" where
  "in_order L st \<longleftrightarrow>
     timer_wf st \<and> (\<exists>m. stdin_writes st = take m L) \<and>
     (\<not> killed st \<longrightarrow>
        stdin_writes st @ map write_of (firing_order (filter is_write (agenda st))) = L)"

text \<open>Every scripted line due before the timeout \<open>T\<close> is written or still pending.\<close>

definition early_written :: "nat \<Rightarrow> (nat \<times> string) list \<Rightarrow> exec_state \<Rightarrow> bool" where
  "early_written T L st \<longleftrightarrow>
     timer_wf st \<and>
     (\<forall>e\<in>set (agenda st). is_timeout e \<longrightarrow> T \<le> due_of e) \<and>
     (\<forall>x\<in>set L. fst x < T \<longrightarrow>
        x \<in> set (stdin_writes st) \<or>
        (\<not> killed st \<and> x \<in> write_of ` set (filter is_write (agenda st))))"

subsection \<open>Invariants of the session table\<close>

text \<open>
  The session object \<open>r\<close> has been torn down: its child has closed, the table does
  not refer to it and its idle timer \<open>h\<close> is not pending.
\<close>

definition retired :: "nat \<Rightarrow> nat \<Rightarrow> world \<Rightarrow> bool" where
  "retired r h w \<longleftrightarrow>
     (\<exists>s. objects w r = Some s \<and> phase (proc s) = Closed \<and> session_timer s = Some h) \<and>
     r < next_ref w \<and> (\<forall>x. runSessions w x \<noteq> Some r) \<and>
     h < next_handle w \<and> (\<forall>e\<in>set (timers w). handle_of e \<noteq> h)"

text \<open>
  Every session object carries an idle timer that was handed out, and every entry of
  \<open>runSessions\<close> refers to a session object stored under its own id.
\<close>

definition sound :: "world \<Rightarrow> bool" where
  "sound w \<longleftrightarrow>
     (\<forall>r s. objects w r = Some s \<longrightarrow>
        r < next_ref w \<and> (\<exists>h. session_timer s = Some h \<and> h < next_handle w)) \<and>
     (\<forall>x r. runSessions w x = Some r \<longrightarrow> (\<exists>s. objects w r = Some s \<and> sessionId s = x))"

section \<open>Facts about the event loop\<close>


lemma earliest_le: "earliest es = Some e \<Longrightarrow> x \<in> set es \<Longrightarrow> due_of e \<le> due_of x"
  by (induction es arbitrary: e) (auto split: option.splits if_splits simp: earliest_None)

lemma earliest_split:
  "earliest es = Some e \<Longrightarrow>
   \<exists>xs ys. es = xs @ e # ys \<and> (\<forall>x\<in>set xs. due_of e < due_of x) \<and> (\<forall>y\<in>set ys. due_of e \<le> due_of y)"
proof (induction es arbitrary: e)
  case Nil
  then show ?case by simp
next
  case (Cons a es)
  show ?case
  proof (cases "earliest es")
    case None
    then have "es = []" by (simp add: earliest_None)
    with Cons.prems have "a # es = [] @ e # []" by simp
    then show ?thesis by (intro exI [of _ "[]"]) auto
  next
    case (Some e')
    show ?thesis
    proof (cases "due_of a \<le> due_of e'")
      case True
      with Some Cons.prems have ea: "e = a" by simp
      have "\<forall>y\<in>set es. due_of a \<le> due_of y"
        using earliest_le [OF Some] True by (meson order_trans)
      with ea show ?thesis by (intro exI [of _ "[]"] exI [of _ es]) simp
    next
      case False
      with Some Cons.prems have ee: "e = e'" by simp
      from Cons.IH [OF Some] obtain xs ys where
        s: "es = xs @ e' # ys" "\<forall>x\<in>set xs. due_of e' < due_of x" "\<forall>y\<in>set ys. due_of e' \<le> due_of y"
        by blast
      with False ee show ?thesis
        by (intro exI [of _ "a # xs"] exI [of _ ys]) auto
    qed
  qed
qed

lemma earliest_append:
  "(\<forall>x\<in>set xs. due_of e < due_of x) \<Longrightarrow> (\<forall>y\<in>set ys. due_of e \<le> due_of y) \<Longrightarrow>
   earliest (xs @ e # ys) = Some e"
proof (induction xs)
  case Nil
  then show ?case
    using earliest_le [of ys] by (auto split: option.splits dest: earliest_mem)
next
  case (Cons a xs)
  then show ?case by auto
qed

lemma earliest_filter:
  assumes "earliest es = Some e" "P e"
  shows "earliest (filter P es) = Some e"
proof -
  from earliest_split [OF assms(1)] obtain xs ys where
    s: "es = xs @ e # ys" "\<forall>x\<in>set xs. due_of e < due_of x" "\<forall>y\<in>set ys. due_of e \<le> due_of y"
    by blast
  have "filter P es = filter P xs @ e # filter P ys"
    using s(1) assms(2) by simp
  moreover have "earliest (filter P xs @ e # filter P ys) = Some e"
    using s(2,3) by (intro earliest_append) auto
  ultimately show ?thesis by simp
qed

lemma firing_order_Nil: "firing_order [] = []"
  by (simp add: firing_order.simps)

lemma firing_order_step:
  "earliest es = Some e \<Longrightarrow> firing_order es = e # firing_order (remove1 e es)"
  by (subst firing_order.simps) simp

lemma firing_order_filter_step:
  assumes "earliest es = Some e"
  shows "firing_order (filter P es) =
           (if P e then [e] else []) @ firing_order (filter P (remove1 e es))"
proof (cases "P e")
  case True
  have "firing_order (filter P es) = e # firing_order (remove1 e (filter P es))"
    using earliest_filter [of es e P] assms True by (intro firing_order_step) simp
  then show ?thesis using True by (simp add: filter_remove1)
next
  case False
  then have "filter P (remove1 e es) = filter P es"
    by (induction es) auto
  with False show ?thesis by simp
qed

lemma firing_order_sorted: "sorted (map due_of es) \<Longrightarrow> firing_order es = es"
proof (induction es)
  case Nil
  then show ?case by (simp add: firing_order_Nil)
next
  case (Cons a es)
  then have "earliest ([] @ a # es) = Some a"
    by (intro earliest_append) auto
  then have "firing_order (a # es) = a # firing_order (remove1 a (a # es))"
    using firing_order_step [of "a # es" a] by simp
  with Cons show ?case by simp
qed

lemma run_loop_done: "earliest (agenda st) = None \<Longrightarrow> run_loop st = st"
  by (subst run_loop.simps) simp

lemma run_loop_step: "earliest (agenda st) = Some e \<Longrightarrow> run_loop st = run_loop (step e st)"
  by (subst run_loop.simps) simp

lemma run_loop_invariant:
  assumes "I st"
    and "\<And>s e. I s \<Longrightarrow> earliest (agenda s) = Some e \<Longrightarrow> I (step e s)"
  shows "I (run_loop st)"
  using assms(1)
proof (induction st rule: run_loop.induct)
  case (1 st)
  show ?case
  proof (cases "earliest (agenda st)")
    case None
    with "1.prems" show ?thesis by (simp add: run_loop_done)
  next
    case (Some e)
    have "I (step e st)" using "1.prems" Some by (rule assms(2))
    then have "I (run_loop (step e st))" using Some by (intro "1.IH")
    with Some show ?thesis by (simp add: run_loop_step)
  qed
qed

lemma run_loop_agenda: "agenda (run_loop st) = []"
proof (induction st rule: run_loop.induct)
  case (1 st)
  show ?case
  proof (cases "earliest (agenda st)")
    case None
    then show ?thesis by (simp add: run_loop_done earliest_None)
  next
    case (Some e)
    with "1.IH" show ?thesis by (simp add: run_loop_step)
  qed
qed

lemma run_loop_log:
  fixes f :: "exec_state \<Rightarrow> 'a list"
  assumes "I st"
    and pres: "\<And>s e. I s \<Longrightarrow> earliest (agenda s) = Some e \<Longrightarrow> I (step e s)"
    and log: "\<And>s e. I s \<Longrightarrow> earliest (agenda s) = Some e \<Longrightarrow>
                f (step e s) = f s @ (if P e then g e else [])"
    and keep: "\<And>s e. I s \<Longrightarrow> earliest (agenda s) = Some e \<Longrightarrow>
                filter P (agenda (step e s)) = filter P (remove1 e (agenda s))"
  shows "f (run_loop st) = f st @ concat (map g (firing_order (filter P (agenda st))))"
  using assms(1)
proof (induction st rule: run_loop.induct)
  case (1 st)
  show ?case
  proof (cases "earliest (agenda st)")
    case None
    then show ?thesis by (simp add: run_loop_done earliest_None firing_order_Nil)
  next
    case (Some e)
    have I': "I (step e st)" using "1.prems" Some by (rule pres)
    have "f (run_loop st) = f (run_loop (step e st))"
      using Some by (simp add: run_loop_step)
    also have "\<dots> = f (step e st) @ concat (map g (firing_order (filter P (agenda (step e st)))))"
      using Some I' by (intro "1.IH")
    also have "\<dots> = f st @ (if P e then g e else [])
                 @ concat (map g (firing_order (filter P (remove1 e (agenda st)))))"
      using log [OF "1.prems" Some] keep [OF "1.prems" Some] by simp
    also have "\<dots> = f st @ concat (map g (firing_order (filter P (agenda st))))"
      using firing_order_filter_step [OF Some, of P] by simp
    finally show ?thesis .
  qed
qed

lemmas kind_defs = is_write_def is_end_def is_timeout_def is_forcekill_def is_close_def
  is_data_def payload_def callback_of_def handle_of_def due_of_def


lemma filter_cancel:
  "(\<forall>e\<in>set es. P e \<longrightarrow> Some (handle_of e) \<noteq> h) \<Longrightarrow> filter P (cancel h es) = filter P es"
  by (cases h) (auto simp: filter_id_conv intro!: filter_cong)

lemma set_cancel: "set (cancel h es) \<subseteq> set es"
  by (cases h) auto

lemma step_fire:
  "step (h, t, WriteInput i) s =
     (let s' = s\<lparr>agenda := remove1 (h, t, WriteInput i) (agenda s)\<rparr>
      in if \<not> killed s then s'\<lparr>stdin_writes := stdin_writes s @ [(t, i @ nl)]\<rparr> else s')"
  "step (h, t, EndInput) s =
     s\<lparr>agenda := remove1 (h, t, EndInput) (agenda s), stdin_ends := stdin_ends s @ [t]\<rparr>"
  "step (h, t, Timeout) s =
     s\<lparr>agenda := remove1 (h, t, Timeout) (agenda s) @ [(fresh s, t + 1000, ForceKill)],
       killed := True, kills := kills s @ [(t, SIGTERM)], fresh := Suc (fresh s)\<rparr>"
  "step (h, t, ForceKill) s =
     s\<lparr>agenda := remove1 (h, t, ForceKill) (agenda s), kills := kills s @ [(t, SIGKILL)]\<rparr>"
  "step (h, t, ChildData Stdout d) s =
     s\<lparr>agenda := remove1 (h, t, ChildData Stdout d) (agenda s), out := out s @ d\<rparr>"
  "step (h, t, ChildData Stderr d) s =
     s\<lparr>agenda := remove1 (h, t, ChildData Stderr d) (agenda s), err := err s @ d\<rparr>"
  "step (h, t, ChildClose c) s =
     s\<lparr>agenda := cancel (timer s) (remove1 (h, t, ChildClose c) (agenda s)),
       resolved := (case resolved s of None \<Rightarrow> Some (close_result c (err s) (out s))
                    | Some r \<Rightarrow> Some r)\<rparr>"
  by (simp_all add: step_def setTimeout_def clearTimeout_def resolve_def Let_def
        split: option.splits)

lemma entry_cases [case_names Write End Timeout ForceKill Out Err Close]:
  fixes e :: "callback entry"
  obtains h t i where "e = (h, t, WriteInput i)"
  | h t where "e = (h, t, EndInput)"
  | h t where "e = (h, t, Timeout)"
  | h t where "e = (h, t, ForceKill)"
  | h t d where "e = (h, t, ChildData Stdout d)"
  | h t d where "e = (h, t, ChildData Stderr d)"
  | h t c where "e = (h, t, ChildClose c)"
proof -
  obtain h t cb where e: "e = (h, t, cb)" by (cases e)
  show thesis
  proof (cases cb)
    case (ChildData k d)
    with e that show ?thesis by (cases k) auto
  qed (use e that in auto)
qed

lemma timer_wf_step:
  assumes "timer_wf s" "earliest (agenda s) = Some e"
  shows "timer_wf (step e s)"
proof -
  have sub: "set (remove1 e (agenda s)) \<subseteq> set (agenda s)" by (rule set_remove1_subset)
  have fr: "Some (fresh s) \<noteq> timer s"
    using assms(1) unfolding timer_wf_def by (metis less_irrefl)
  have can: "set (cancel (timer s) (remove1 e (agenda s))) \<subseteq> set (agenda s)"
    using sub set_cancel [of "timer s" "remove1 e (agenda s)"] by blast
  show ?thesis
  proof (cases e rule: entry_cases)
    case (Timeout h t)
    then show ?thesis
      using assms(1) sub fr unfolding timer_wf_def
      by (auto simp: step_fire kind_defs)
  next
    case (Close h t c)
    then show ?thesis
      using assms(1) can unfolding timer_wf_def
      by (auto simp: step_fire)
  qed (use assms(1) sub in \<open>auto simp: timer_wf_def step_fire Let_def\<close>)
qed

lemma run_loop_ends:
  assumes "timer_wf st"
  shows "stdin_ends (run_loop st) = stdin_ends st @ map due_of (firing_order (filter is_end (agenda st)))"
proof -
  have "stdin_ends (run_loop st) =
          stdin_ends st @ concat (map (\<lambda>e. [due_of e]) (firing_order (filter is_end (agenda st))))"
  proof (rule run_loop_log [where I = timer_wf], rule assms, erule (1) timer_wf_step)
    fix s e assume "timer_wf s" "earliest (agenda s) = Some e"
    show "stdin_ends (step e s) = stdin_ends s @ (if is_end e then [due_of e] else [])"
      by (cases e rule: entry_cases) (simp_all add: step_fire kind_defs Let_def)
  next
    fix s e assume wf: "timer_wf s" and "earliest (agenda s) = Some e"
    have sub: "set (remove1 e (agenda s)) \<subseteq> set (agenda s)" by (rule set_remove1_subset)
    have c: "filter is_end (cancel (timer s) (remove1 e (agenda s))) = filter is_end (remove1 e (agenda s))"
      using wf sub by (intro filter_cancel) (auto simp: timer_wf_def is_end_def is_timeout_def)
    show "filter is_end (agenda (step e s)) = filter is_end (remove1 e (agenda s))"
      using c by (cases e rule: entry_cases) (simp_all add: step_fire kind_defs Let_def)
  qed
  then show ?thesis by (simp add: concat_map_singleton)
qed

lemma earliest_least: "earliest es = Some e \<Longrightarrow> x \<in> set es \<Longrightarrow> \<not> due_of x < due_of e"
  using earliest_le [of es e x] by simp

lemma mem_remove1_other: "x \<in> set es \<Longrightarrow> x \<noteq> e \<Longrightarrow> x \<in> set (remove1 e es)"
  by simp




lemma cancel_timeouts:
  assumes "timer_wf s" "e' \<in> set (cancel (timer s) es)" "set es \<subseteq> set (agenda s)"
  shows "\<not> is_timeout e'"
proof (cases "timer s")
  case None
  with assms show ?thesis by (auto simp: timer_wf_def)
next
  case (Some h)
  with assms show ?thesis by (auto simp: timer_wf_def)
qed

lemma cancel_keeps:
  assumes "timer_wf s" "set es \<subseteq> set (agenda s)" "\<forall>e. P e \<longrightarrow> \<not> is_timeout e"
  shows "filter P (cancel (timer s) es) = filter P es"
  using assms by (intro filter_cancel) (auto simp: timer_wf_def)

subsection \<open>Runs in which the child closes before the timeout\<close>

lemma quiet_step:
  assumes q: "quiet s" and ear: "earliest (agenda s) = Some e"
  shows "quiet (step e s)"
proof -
  have wf: "timer_wf (step e s)" using q ear by (auto simp: quiet_def intro: timer_wf_step)
  have mem: "e \<in> set (agenda s)" using ear by (rule earliest_mem)
  have sub: "set (remove1 e (agenda s)) \<subseteq> set (agenda s)" by (rule set_remove1_subset)
  have rest: "\<forall>e'\<in>set (remove1 e (agenda s)). is_timeout e' \<longrightarrow>
                (\<exists>c\<in>set (remove1 e (agenda s)). is_close c \<and> due_of c < due_of e')"
    if "\<not> is_close e"
  proof (intro ballI impI)
    fix e' assume "e' \<in> set (remove1 e (agenda s))" "is_timeout e'"
    with q sub obtain c where c: "c \<in> set (agenda s)" "is_close c" "due_of c < due_of e'"
      unfolding quiet_def by blast
    with that have "c \<noteq> e" by auto
    with c show "\<exists>c\<in>set (remove1 e (agenda s)). is_close c \<and> due_of c < due_of e'"
      by auto
  qed
  show ?thesis
  proof (cases e rule: entry_cases)
    case (Timeout h t)
    with q mem obtain c where "c \<in> set (agenda s)" "due_of c < due_of e"
      unfolding quiet_def by (auto simp: kind_defs)
    with ear have False using earliest_least by blast
    then show ?thesis ..
  next
    case (ForceKill h t)
    with q mem have False unfolding quiet_def by (auto simp: kind_defs)
    then show ?thesis ..
  next
    case (Close h t c)
    have "\<forall>e'\<in>set (agenda (step e s)). \<not> is_timeout e'"
      using q sub cancel_timeouts [of s _ "remove1 e (agenda s)"]
      by (auto simp: Close step_fire quiet_def)
    moreover have "set (agenda (step e s)) \<subseteq> set (agenda s)"
      using sub set_cancel [of "timer s" "remove1 e (agenda s)"] by (auto simp: Close step_fire)
    ultimately show ?thesis
      using q wf unfolding quiet_def by (auto simp: Close step_fire)
  next
    case (Write h t i)
    then have "\<not> is_close e" by (simp add: kind_defs)
    from rest [OF this] show ?thesis
      using q wf sub unfolding quiet_def by (auto simp: Write step_fire Let_def)
  next
    case (End h t)
    then have "\<not> is_close e" by (simp add: kind_defs)
    from rest [OF this] show ?thesis
      using q wf sub unfolding quiet_def by (auto simp: End step_fire)
  next
    case (Out h t d)
    then have "\<not> is_close e" by (simp add: kind_defs)
    from rest [OF this] show ?thesis
      using q wf sub unfolding quiet_def by (auto simp: Out step_fire)
  next
    case (Err h t d)
    then have "\<not> is_close e" by (simp add: kind_defs)
    from rest [OF this] show ?thesis
      using q wf sub unfolding quiet_def by (auto simp: Err step_fire)
  qed
qed

lemma quiet_run: "quiet st \<Longrightarrow> quiet (run_loop st)"
  by (rule run_loop_invariant [where I = quiet]) (auto intro: quiet_step)

lemma quiet_writes:
  assumes "quiet st"
  shows "stdin_writes (run_loop st) =
           stdin_writes st @ map (\<lambda>e. (due_of e, payload e)) (firing_order (filter is_write (agenda st)))"
proof -
  have "stdin_writes (run_loop st) =
          stdin_writes st @ concat (map (\<lambda>e. [(due_of e, payload e)])
            (firing_order (filter is_write (agenda st))))"
  proof (rule run_loop_log [where I = quiet], rule assms, erule (1) quiet_step)
    fix s e assume "quiet s" "earliest (agenda s) = Some e"
    then show "stdin_writes (step e s) =
                 stdin_writes s @ (if is_write e then [(due_of e, payload e)] else [])"
      by (cases e rule: entry_cases) (simp_all add: step_fire kind_defs Let_def quiet_def)
  next
    fix s e assume q: "quiet s" and "earliest (agenda s) = Some e"
    have sub: "set (remove1 e (agenda s)) \<subseteq> set (agenda s)" by (rule set_remove1_subset)
    have c: "filter is_write (cancel (timer s) (remove1 e (agenda s))) = filter is_write (remove1 e (agenda s))"
      using q sub by (intro cancel_keeps) (auto simp: quiet_def kind_defs split: callback.splits)
    show "filter is_write (agenda (step e s)) = filter is_write (remove1 e (agenda s))"
      using c by (cases e rule: entry_cases) (simp_all add: step_fire kind_defs Let_def)
  qed
  then show ?thesis by (simp add: concat_map_singleton)
qed

subsection \<open>Runs in which the timeout fires\<close>



subsection \<open>The value the promise resolves to\<close>





subsection \<open>The writes are always a prefix of the scripted inputs\<close>

lemma in_order_step:
  assumes inv: "in_order L s" and ear: "earliest (agenda s) = Some e"
  shows "in_order L (step e s)"
proof -
  have wf: "timer_wf s" using inv by (simp add: in_order_def)
  have wf': "timer_wf (step e s)" using wf ear by (rule timer_wf_step)
  have sub: "set (remove1 e (agenda s)) \<subseteq> set (agenda s)" by (rule set_remove1_subset)
  have c: "filter is_write (cancel (timer s) (remove1 e (agenda s))) = filter is_write (remove1 e (agenda s))"
    using wf sub by (intro cancel_keeps) (auto simp: kind_defs split: callback.splits)
  have fo: "firing_order (filter is_write (agenda s)) =
              (if is_write e then [e] else []) @ firing_order (filter is_write (remove1 e (agenda s)))"
    using ear by (rule firing_order_filter_step)
  obtain m where m: "stdin_writes s = take m L" using inv unfolding in_order_def by blast
  show ?thesis
  proof (cases "is_write e \<and> \<not> killed s")
    case True
    then obtain h t i where e: "e = (h, t, WriteInput i)"
      by (cases e rule: entry_cases) (auto simp: kind_defs)
    have full: "stdin_writes s @ write_of e # map write_of (firing_order (filter is_write (remove1 e (agenda s)))) = L"
      using inv True fo unfolding in_order_def by simp
    have sw: "stdin_writes (step e s) = stdin_writes s @ [write_of e]"
      using True by (simp add: e step_fire write_of_def kind_defs)
    have ag: "agenda (step e s) = remove1 e (agenda s)" "killed (step e s) = killed s"
      using True by (simp_all add: e step_fire)
    have "L = stdin_writes (step e s) @ map write_of (firing_order (filter is_write (remove1 e (agenda s))))"
      using full sw by simp
    then have pre: "stdin_writes (step e s) = take (length (stdin_writes (step e s))) L"
      by simp
    have tot: "stdin_writes (step e s) @ map write_of (firing_order (filter is_write (agenda (step e s)))) = L"
      using full sw ag by simp
    show ?thesis
      unfolding in_order_def using wf' pre tot by blast
  next
    case False
    have sw: "stdin_writes (step e s) = stdin_writes s"
      using False by (cases e rule: entry_cases) (auto simp: step_fire kind_defs Let_def)
    have k: "\<not> killed (step e s) \<Longrightarrow> \<not> killed s \<and> \<not> is_write e \<and>
               filter is_write (agenda (step e s)) = filter is_write (remove1 e (agenda s))"
      using False c by (cases e rule: entry_cases) (auto simp: step_fire kind_defs Let_def)
    show ?thesis
      unfolding in_order_def
    proof (intro conjI impI)
      show "timer_wf (step e s)" by (rule wf')
      show "\<exists>m. stdin_writes (step e s) = take m L" using sw m by auto
      assume nk: "\<not> killed (step e s)"
      from k [OF nk] inv fo sw
      show "stdin_writes (step e s) @ map write_of (firing_order (filter is_write (agenda (step e s)))) = L"
        unfolding in_order_def by simp
    qed
  qed
qed

lemma in_order_run:
  assumes "timer_wf st" "\<not> killed st" "stdin_writes st = []"
  shows "\<exists>m. stdin_writes (run_loop st) = take m (map write_of (firing_order (filter is_write (agenda st))))"
proof -
  let ?L = "map write_of (firing_order (filter is_write (agenda st)))"
  have "in_order ?L st"
    using assms unfolding in_order_def by (auto intro: exI [of _ 0])
  then have "in_order ?L (run_loop st)"
    by (rule run_loop_invariant [where I = "in_order ?L"]) (auto intro: in_order_step)
  then show ?thesis unfolding in_order_def by blast
qed

subsection \<open>The state right after the spawn\<close>

lemma fold_invariant:
  "I s \<Longrightarrow> (\<And>x s. I s \<Longrightarrow> I (f x s)) \<Longrightarrow> I (fold f xs s)"
  by (induction xs arbitrary: s) auto

lemma untimed_setTimeout: "untimed st \<Longrightarrow> cb \<noteq> Timeout \<Longrightarrow> untimed (setTimeout cb d t0 st)"
  by (auto simp: untimed_def setTimeout_def kind_defs less_Suc_eq)

lemma timer_wf_setTimeout:
  assumes "timer_wf st" "cb \<noteq> Timeout"
  shows "timer_wf (setTimeout cb d t0 st)"
proof -
  have "Some (fresh st) \<noteq> timer st"
    using assms(1) unfolding timer_wf_def by (metis less_irrefl)
  with assms show ?thesis
    by (auto simp: timer_wf_def setTimeout_def kind_defs less_Suc_eq)
qed

lemma timer_wf_schedule_timeout: "untimed st \<Longrightarrow> timer_wf (schedule_timeout st)"
  by (auto simp: untimed_def timer_wf_def schedule_timeout_def setTimeout_def kind_defs)

lemma untimed_schedule_inputs: "untimed (schedule_inputs inputs empty_exec)"
proof -
  have e: "untimed empty_exec" by (simp add: untimed_def empty_exec_def)
  have "untimed (fold (\<lambda>(x, i). setTimeout (WriteInput i) (x * 100) 0) xs empty_exec)" for xs
    by (rule fold_invariant [where I = untimed]) (auto intro: e untimed_setTimeout)
  then have "untimed (setTimeout EndInput d 0
      (fold (\<lambda>(x, i). setTimeout (WriteInput i) (x * 100) 0) xs empty_exec))" for xs d
    by (intro untimed_setTimeout) simp_all
  moreover have "untimed (empty_exec\<lparr>stdin_ends := xs\<rparr>)" for xs
    by (simp add: untimed_def empty_exec_def)
  ultimately show ?thesis
    by (simp add: schedule_inputs_def)
qed

lemma timer_wf_spawned: "timer_wf (spawned inputs ch)"
proof -
  have t: "timer_wf (schedule_timeout (schedule_inputs inputs empty_exec))"
    by (intro timer_wf_schedule_timeout untimed_schedule_inputs)
  have "timer_wf (fold (\<lambda>(t, k, d). setTimeout (ChildData k d) t 0) xs
          (schedule_timeout (schedule_inputs inputs empty_exec)))" for xs
    by (rule fold_invariant [where I = timer_wf]) (auto intro: t timer_wf_setTimeout)
  then show ?thesis
    unfolding spawned_def attach_child_def by (intro timer_wf_setTimeout) simp_all
qed

lemma quiescent_setTimeout: "quiescent st \<Longrightarrow> quiescent (setTimeout cb d t0 st)"
  by (simp add: quiescent_def setTimeout_def)

lemma quiescent_spawned: "quiescent (spawned inputs ch)"
proof -
  have e: "quiescent empty_exec" by (simp add: quiescent_def empty_exec_def)
  have "quiescent (fold (\<lambda>(x, i). setTimeout (WriteInput i) (x * 100) 0) xs empty_exec)" for xs
    by (rule fold_invariant [where I = quiescent]) (auto intro: e quiescent_setTimeout)
  then have "quiescent (setTimeout EndInput d 0
      (fold (\<lambda>(x, i). setTimeout (WriteInput i) (x * 100) 0) xs empty_exec))" for xs d
    by (intro quiescent_setTimeout)
  moreover have "quiescent (empty_exec\<lparr>stdin_ends := xs\<rparr>)" for xs
    by (simp add: quiescent_def empty_exec_def)
  ultimately have "quiescent (schedule_inputs inputs empty_exec)"
    by (simp add: schedule_inputs_def)
  then have t: "quiescent (schedule_timeout (schedule_inputs inputs empty_exec))"
    by (simp add: schedule_timeout_def quiescent_def setTimeout_def)
  have "quiescent (fold (\<lambda>(t, k, d). setTimeout (ChildData k d) t 0) xs
          (schedule_timeout (schedule_inputs inputs empty_exec)))" for xs
    by (rule fold_invariant [where I = quiescent]) (auto intro: t quiescent_setTimeout)
  then show ?thesis
    unfolding spawned_def attach_child_def by (intro quiescent_setTimeout)
qed

lemma pending_setTimeout:
  "map snd (agenda (setTimeout cb d t0 st)) = map snd (agenda st) @ [(t0 + d, cb)]"
  "stdin_ends (setTimeout cb d t0 st) = stdin_ends st"
  by (simp_all add: setTimeout_def)

lemma pending_fold:
  "map snd (agenda (fold (\<lambda>x. setTimeout (c x) (d x) 0) xs st)) =
     map snd (agenda st) @ map (\<lambda>x. (d x, c x)) xs"
  "stdin_ends (fold (\<lambda>x. setTimeout (c x) (d x) 0) xs st) = stdin_ends st"
  by (induction xs arbitrary: st) (simp_all add: pending_setTimeout)

lemma pending_spawned:
  "map snd (agenda (spawned inputs ch)) = scripted inputs @ (10000, Timeout) # child_events ch"
  "stdin_ends (spawned inputs ch) = (if inputs = [] then [0] else [])"
proof -
  have w: "(\<lambda>(x, i). setTimeout (WriteInput i) (x * 100) 0)
             = (\<lambda>p. setTimeout (WriteInput (snd p)) (fst p * 100) 0)"
    by (simp add: fun_eq_iff split_def)
  have c: "(\<lambda>(t, k, d). setTimeout (ChildData k d) t 0)
             = (\<lambda>p. setTimeout (ChildData (fst (snd p)) (snd (snd p))) (fst p) 0)"
    by (simp add: fun_eq_iff split_def)
  show "map snd (agenda (spawned inputs ch)) = scripted inputs @ (10000, Timeout) # child_events ch"
    unfolding spawned_def attach_child_def schedule_timeout_def schedule_inputs_def w c
    by (simp add: pending_setTimeout pending_fold scripted_def child_events_def empty_exec_def
          split_def)
  show "stdin_ends (spawned inputs ch) = (if inputs = [] then [0] else [])"
    unfolding spawned_def attach_child_def schedule_timeout_def schedule_inputs_def w c
    by (simp add: pending_setTimeout pending_fold empty_exec_def)
qed

subsection \<open>What a whole run does\<close>

lemma filter_project:
  assumes "\<And>e. P e = Q (snd e)"
  shows "map snd (filter P es) = filter Q (map snd es)"
  by (induction es) (simp_all add: assms)

lemma firing_order_project:
  assumes P: "\<And>e. P e = Q (snd e)"
    and srt: "sorted (map fst (filter Q (map snd es)))"
  shows "map snd (firing_order (filter P es)) = filter Q (map snd es)"
proof -
  have "map due_of (filter P es) = map fst (map snd (filter P es))"
    by (simp add: due_of_def)
  also have "\<dots> = map fst (filter Q (map snd es))"
    by (simp only: filter_project [of P Q, OF P])
  finally have "sorted (map due_of (filter P es))" using srt by simp
  then have "firing_order (filter P es) = filter P es" by (rule firing_order_sorted)
  then show ?thesis by (simp only: filter_project [of P Q, OF P])
qed

lemma q_simps:
  "is_write e = q_write (snd e)" "is_data k e = q_data k (snd e)" "write_of e = q_write_of (snd e)"
  "is_end e = (snd (snd e) = EndInput)" "payload e = snd (q_write_of (snd e))"
  by (simp_all add: q_write_def q_data_def q_write_of_def write_of_def kind_defs)

lemma sorted_times: "sorted (map (\<lambda>p. fst p * 100) (enumerate k (xs :: 'a list)))"
  by (induction xs arbitrary: k) (auto simp: in_set_enumerate_eq)

lemma spawned_writes:
  "map write_of (firing_order (filter is_write (agenda (spawned inputs ch)))) = script inputs"
proof -
  let ?W = "map (\<lambda>(x, i). (x * 100, WriteInput i)) (enumerate 0 inputs)"
  have f: "filter q_write (map snd (agenda (spawned inputs ch))) = ?W"
    by (auto simp: pending_spawned scripted_def child_events_def q_write_def kind_defs
          filter_map comp_def split_def filter_empty_conv)
  have "map fst ?W = map (\<lambda>p. fst p * 100) (enumerate 0 inputs)"
    by (simp add: split_def)
  then have s: "sorted (map fst (filter q_write (map snd (agenda (spawned inputs ch)))))"
    using sorted_times [of 0 inputs] by (simp only: f)
  have "map write_of (firing_order (filter is_write (agenda (spawned inputs ch))))
          = map q_write_of (map snd (firing_order (filter is_write (agenda (spawned inputs ch)))))"
    by (simp add: q_simps(3))
  also have "\<dots> = map q_write_of ?W"
    using firing_order_project [of is_write q_write, OF q_simps(1) s] f by simp
  also have "\<dots> = script inputs"
    by (simp add: script_def q_write_of_def write_of_def kind_defs split_def)
  finally show ?thesis .
qed

lemma exec_writes_prefix: "\<exists>m. stdin_writes (execWithInput inputs ch) = take m (script inputs)"
  using in_order_run [of "spawned inputs ch"] timer_wf_spawned [of inputs ch]
    quiescent_spawned [of inputs ch]
  by (simp add: execWithInput_def spawned_writes quiescent_def)

lemma exec_ends:
  "stdin_ends (execWithInput inputs ch) = (if inputs = [] then [0] else [length inputs * 100 + 100])"
proof -
  let ?E = "if inputs = [] then [] else [(length inputs * 100 + 100, EndInput)]"
  have f: "filter (\<lambda>x. snd x = EndInput) (map snd (agenda (spawned inputs ch))) = ?E"
    by (auto simp: pending_spawned scripted_def child_events_def
          filter_map comp_def split_def filter_empty_conv)
  have s: "sorted (map fst (filter (\<lambda>x. snd x = EndInput) (map snd (agenda (spawned inputs ch)))))"
    by (simp only: f) simp
  have "map due_of (firing_order (filter is_end (agenda (spawned inputs ch))))
          = map fst (map snd (firing_order (filter is_end (agenda (spawned inputs ch)))))"
    by (simp add: due_of_def)
  also have "\<dots> = map fst ?E"
    using firing_order_project [of is_end "\<lambda>x. snd x = EndInput", OF q_simps(4) s] f by simp
  finally show ?thesis
    using run_loop_ends [OF timer_wf_spawned, of inputs ch]
    by (simp add: execWithInput_def pending_spawned)
qed

lemma snd_agenda: "x \<in> set (map snd (agenda st)) \<longleftrightarrow> (\<exists>e\<in>set (agenda st). snd e = x)"
  by auto

lemma quiet_spawned:
  assumes "close_at ch < 10000"
  shows "quiet (spawned inputs ch)"
proof -
  let ?st = "spawned inputs ch"
  have cb: "set (map snd (agenda ?st)) = set (scripted inputs @ (10000, Timeout) # child_events ch)"
    by (simp only: pending_spawned)
  have "(close_at ch, ChildClose (close_code ch)) \<in> set (map snd (agenda ?st))"
    unfolding cb by (simp add: child_events_def)
  then obtain c where c: "c \<in> set (agenda ?st)" "snd c = (close_at ch, ChildClose (close_code ch))"
    unfolding snd_agenda by blast
  have all: "snd e \<in> set (scripted inputs @ (10000, Timeout) # child_events ch)"
    if "e \<in> set (agenda ?st)" for e
    using that cb by (metis snd_agenda)
  have nofk: "\<not> is_forcekill e" if "e \<in> set (agenda ?st)" for e
    using all [OF that] by (auto simp: scripted_def child_events_def kind_defs split: if_splits)
  have tmo: "due_of e = 10000" if "e \<in> set (agenda ?st)" "is_timeout e" for e
    using all [OF that(1)] that(2)
    by (auto simp: scripted_def child_events_def kind_defs split: if_splits)
  have "is_close c \<and> due_of c < 10000"
    using c(2) assms by (simp add: kind_defs)
  with c(1) tmo have "\<forall>e\<in>set (agenda ?st). is_timeout e \<longrightarrow>
      (\<exists>c\<in>set (agenda ?st). is_close c \<and> due_of c < due_of e)"
    by auto
  then show ?thesis
    using timer_wf_spawned [of inputs ch] quiescent_spawned [of inputs ch] nofk
    unfolding quiet_def quiescent_def by blast
qed

lemma exec_quiet:
  assumes "close_at ch < 10000"
  shows "kills (execWithInput inputs ch) = []" "\<not> killed (execWithInput inputs ch)"
    "stdin_writes (execWithInput inputs ch) = script inputs"
  using quiet_run [OF quiet_spawned [OF assms, of inputs]]
    quiet_writes [OF quiet_spawned [OF assms, of inputs]] quiescent_spawned [of inputs ch]
  by (simp_all add: execWithInput_def quiet_def spawned_writes quiescent_def
        flip: write_of_def [abs_def])







subsection \<open>Inputs due before the timeout are written\<close>

lemma early_written_step:
  assumes inv: "early_written T L s" and ear: "earliest (agenda s) = Some e"
  shows "early_written T L (step e s)"
proof -
  have wf: "timer_wf s" using inv by (simp add: early_written_def)
  have wf': "timer_wf (step e s)" using wf ear by (rule timer_wf_step)
  have mem: "e \<in> set (agenda s)" using ear by (rule earliest_mem)
  have sub: "set (remove1 e (agenda s)) \<subseteq> set (agenda s)" by (rule set_remove1_subset)
  have can: "set (cancel (timer s) (remove1 e (agenda s))) \<subseteq> set (agenda s)"
    using sub set_cancel [of "timer s" "remove1 e (agenda s)"] by blast
  have c: "filter is_write (cancel (timer s) (remove1 e (agenda s))) = filter is_write (remove1 e (agenda s))"
    using wf sub by (intro cancel_keeps) (auto simp: kind_defs split: callback.splits)
  have tm: "\<forall>e'\<in>set (agenda (step e s)). is_timeout e' \<longrightarrow> T \<le> due_of e'"
  proof -
    have "set (agenda (step e s)) \<subseteq> set (agenda s) \<union> {e'. \<not> is_timeout e'}"
      using sub can by (cases e rule: entry_cases) (auto simp: step_fire kind_defs Let_def)
    with inv show ?thesis unfolding early_written_def by blast
  qed
  have "x \<in> set (stdin_writes (step e s)) \<or>
        (\<not> killed (step e s) \<and> x \<in> write_of ` set (filter is_write (agenda (step e s))))"
    if x: "x \<in> set L" "fst x < T" for x
  proof -
    from inv x consider
      (already) "x \<in> set (stdin_writes s)"
      | (pending) e' where "\<not> killed s" "e' \<in> set (agenda s)" "is_write e'" "x = write_of e'"
      unfolding early_written_def by auto
    then show ?thesis
    proof cases
      case already
      then show ?thesis
        by (cases e rule: entry_cases) (auto simp: step_fire Let_def)
    next
      case pending
      have due: "due_of e \<le> due_of e'" using ear pending(2) by (rule earliest_le)
      have lt: "due_of e' < T" using x(2) pending(4) by (simp add: write_of_def)
      have nt: "\<not> is_timeout e"
        using inv mem due lt unfolding early_written_def by fastforce
      show ?thesis
      proof (cases "e' = e")
        case True
        with pending have "stdin_writes (step e s) = stdin_writes s @ [x]"
          by (cases e rule: entry_cases) (auto simp: step_fire Let_def kind_defs write_of_def)
        then show ?thesis by simp
      next
        case False
        with pending(2) have "e' \<in> set (remove1 e (agenda s))" by simp
        with pending(3) have "e' \<in> set (filter is_write (remove1 e (agenda s)))" by simp
        moreover have "filter is_write (agenda (step e s)) = filter is_write (remove1 e (agenda s))"
          using c by (cases e rule: entry_cases) (simp_all add: step_fire kind_defs Let_def)
        moreover have "\<not> killed (step e s)"
          using nt pending(1) by (cases e rule: entry_cases) (auto simp: step_fire kind_defs Let_def)
        ultimately show ?thesis using pending(4) by auto
      qed
    qed
  qed
  with wf' tm show ?thesis unfolding early_written_def by blast
qed

lemma firing_order_set: "set (firing_order es) = set es"
proof (induction es rule: firing_order.induct)
  case (1 es)
  show ?case
  proof (cases "earliest es")
    case None
    then show ?thesis by (simp add: earliest_None firing_order_Nil)
  next
    case (Some e)
    then have "e \<in> set es" by (rule earliest_mem)
    then have "insert e (set (remove1 e es)) = set es"
      by (induction es) auto
    with "1.IH" [OF Some] Some show ?thesis
      by (simp add: firing_order_step)
  qed
qed

lemma exec_writes_early:
  assumes "x \<in> set (script inputs)" "fst x < 10000"
  shows "x \<in> set (stdin_writes (execWithInput inputs ch))"
proof -
  let ?st = "spawned inputs ch"
  have cb: "set (map snd (agenda ?st)) = set (scripted inputs @ (10000, Timeout) # child_events ch)"
    by (simp only: pending_spawned)
  have all: "snd e \<in> set (scripted inputs @ (10000, Timeout) # child_events ch)"
    if "e \<in> set (agenda ?st)" for e
    using that cb by (metis snd_agenda)
  have tmo: "10000 \<le> due_of e" if "e \<in> set (agenda ?st)" "is_timeout e" for e
    using all [OF that(1)] that(2)
    by (auto simp: scripted_def child_events_def kind_defs split: if_splits)
  have "set (script inputs) = write_of ` set (filter is_write (agenda ?st))"
    using spawned_writes [of inputs ch, symmetric] by (simp add: firing_order_set)
  then have "early_written 10000 (script inputs) ?st"
    using timer_wf_spawned [of inputs ch] quiescent_spawned [of inputs ch] tmo
    unfolding early_written_def quiescent_def by auto
  then have "early_written 10000 (script inputs) (run_loop ?st)"
    by (rule run_loop_invariant [where I = "early_written 10000 (script inputs)"])
       (auto intro: early_written_step)
  with assms show ?thesis
    unfolding early_written_def execWithInput_def by (auto simp: run_loop_agenda)
qed

subsection \<open>The promise of execWithInput always resolves\<close>

lemma closing_step:
  assumes "closing s" "earliest (agenda s) = Some e"
  shows "closing (step e s)"
proof (cases "resolved s")
  case (Some r)
  then have "resolved (step e s) \<noteq> None"
    by (cases e rule: entry_cases) (simp_all add: step_fire Let_def)
  then show ?thesis by (simp add: closing_def)
next
  case None
  with assms(1) obtain c where c: "c \<in> set (agenda s)" "is_close c" by (auto simp: closing_def)
  show ?thesis
  proof (cases "is_close e")
    case True
    with None have "resolved (step e s) \<noteq> None"
      by (cases e rule: entry_cases) (simp_all add: step_fire kind_defs)
    then show ?thesis by (simp add: closing_def)
  next
    case False
    from c(2) False have "c \<noteq> e" by auto
    with c(1) have "c \<in> set (remove1 e (agenda s))" by simp
    then have "c \<in> set (agenda (step e s))"
      using False by (cases e rule: entry_cases) (simp_all add: step_fire kind_defs Let_def)
    with c(2) show ?thesis by (auto simp: closing_def)
  qed
qed

lemma exec_always_resolves: "resolved (execWithInput inputs ch) \<noteq> None"
proof -
  have "(close_at ch, ChildClose (close_code ch)) \<in> set (map snd (agenda (spawned inputs ch)))"
    by (simp add: pending_spawned child_events_def)
  then obtain c where "c \<in> set (agenda (spawned inputs ch))"
      "snd c = (close_at ch, ChildClose (close_code ch))"
    unfolding snd_agenda by blast
  then have "c \<in> set (agenda (spawned inputs ch))" "is_close c"
    by (simp_all add: kind_defs)
  then have "closing (spawned inputs ch)"
    unfolding closing_def by blast
  then have "closing (run_loop (spawned inputs ch))"
    by (rule run_loop_invariant [where I = closing]) (auto intro: closing_step)
  then show ?thesis
    by (simp add: closing_def run_loop_agenda execWithInput_def)
qed

section \<open>Facts about the runners\<close>

lemmas demo_defs = demo_env_def demo_host_def demo_child_def demo_proc_def demo_stdin_def

lemmas runner_defs = runCodeWithInput_def runners_def getSupportedLanguages_def run_base_def
  runJavaWithInput_def runPythonWithInput_def run_script_def spawn_and_wait_def
  cleanupTempFiles_def readdirSync_def writeFileSync_def unlinkSync_def run_exec_def
  path_join_def basename_def put_def dq_def match_here_def is_space_def is_word_def
  getPythonCommand_def





subsection \<open>The batch runners always settle\<close>

lemma spawn_and_wait_settles: "fst (spawn_and_wait env cmd args inputs h) \<noteq> Pending"
  using exec_always_resolves [of inputs "spawn_child env cmd args"]
  by (auto simp: spawn_and_wait_def split: option.splits)

subsection \<open>What the sweep of cleanupTempFiles removes\<close>

lemma unlinkSync_entries:
  "unlinkSync p h = Inr h' \<Longrightarrow>
   entries h' = filter (\<lambda>(n, c). n \<noteq> basename p) (entries h) \<and> tempDir h' = tempDir h"
  by (auto simp: unlinkSync_def split: if_splits)

lemma basename_join: "CHR ''/'' \<notin> set n \<Longrightarrow> basename (path_join d n) = n"
proof -
  assume n: "CHR ''/'' \<notin> set n"
  have "takeWhile (\<lambda>c. c \<noteq> CHR ''/'') (rev n @ CHR ''/'' # rev d) = rev n"
    using n by (subst takeWhile_append2) auto
  then show ?thesis by (simp add: basename_def path_join_def)
qed

lemma sweep_result:
  assumes "sweep stem names h = (None, h')" "\<forall>n\<in>set names. CHR ''/'' \<notin> set n"
  shows "entries h' = filter (\<lambda>(n, c). \<not> (n \<in> set names \<and> str_includes n stem)) (entries h)"
  using assms
proof (induction names arbitrary: h)
  case Nil
  then show ?case by simp
next
  case (Cons f fs)
  show ?case
  proof (cases "str_includes f stem")
    case False
    with Cons.prems have "sweep stem fs h = (None, h')" by simp
    then have "entries h' = filter (\<lambda>(n, c). \<not> (n \<in> set fs \<and> str_includes n stem)) (entries h)"
      using Cons.prems(2) by (intro Cons.IH) simp_all
    with False show ?thesis by (auto intro: filter_cong)
  next
    case True
    with Cons.prems(1) obtain h1 where u: "unlinkSync (path_join (tempDir h) f) h = Inr h1"
      and s: "sweep stem fs h1 = (None, h')"
      by (auto split: sum.splits)
    have b: "basename (path_join (tempDir h) f) = f"
      using Cons.prems(2) by (intro basename_join) simp
    have e1: "entries h1 = filter (\<lambda>(n, c). n \<noteq> f) (entries h)"
      using unlinkSync_entries [OF u] b by simp
    have "entries h' = filter (\<lambda>(n, c). \<not> (n \<in> set fs \<and> str_includes n stem)) (entries h1)"
      using s Cons.prems(2) by (intro Cons.IH) simp_all
    with e1 True show ?thesis by (auto intro: filter_cong)
  qed
qed

lemma cleanupTempFiles_result:
  assumes "cleanupTempFiles b h = (None, h')" "\<forall>n\<in>fst ` set (entries h). CHR ''/'' \<notin> set n"
  shows "entries h' = filter (\<lambda>(n, c). \<not> str_includes n (basename b)) (entries h)"
proof -
  have s: "sweep (basename b) (sort (map fst (entries h))) h = (None, h')"
    using assms(1) by (auto simp: cleanupTempFiles_def readdirSync_def split: if_splits)
  have "entries h' = filter (\<lambda>(n, c). \<not> (n \<in> set (sort (map fst (entries h))) \<and>
          str_includes n (basename b))) (entries h)"
    using s assms(2) by (intro sweep_result) simp_all
  moreover have "filter (\<lambda>(n, c). \<not> (n \<in> set (sort (map fst (entries h))) \<and>
          str_includes n (basename b))) (entries h) =
        filter (\<lambda>(n, c). \<not> str_includes n (basename b)) (entries h)"
    by (rule filter_cong) force+
  ultimately show ?thesis by simp
qed

section \<open>Facts about sessions\<close>

lemma set_timer_fields:
  "fst (set_timer cb d w) = next_handle w"
  "timers (snd (set_timer cb d w)) = timers w @ [(next_handle w, now w + d, cb)]"
  "next_handle (snd (set_timer cb d w)) = Suc (next_handle w)"
  "objects (snd (set_timer cb d w)) = objects w"
  "runSessions (snd (set_timer cb d w)) = runSessions w"
  "machine (snd (set_timer cb d w)) = machine w"
  "sent (snd (set_timer cb d w)) = sent w"
  "now (snd (set_timer cb d w)) = now w"
  "mainWindow (snd (set_timer cb d w)) = mainWindow w"
  "next_ref (snd (set_timer cb d w)) = next_ref w"
  by (simp_all add: set_timer_def)

lemma kill_fields:
  "timers (kill r sg w) = timers w"
  "next_handle (kill r sg w) = next_handle w"
  "runSessions (kill r sg w) = runSessions w"
  "machine (kill r sg w) = machine w"
  "sent (kill r sg w) = sent w"
  "now (kill r sg w) = now w"
  "mainWindow (kill r sg w) = mainWindow w"
  "next_ref (kill r sg w) = next_ref w"
  by (simp_all add: kill_def split: option.splits)

lemma resetTimer_fields:
  assumes "objects w r = Some s"
  shows "timers (resetTimer r w)
           = cancel (session_timer s) (timers w) @
             [(next_handle w, now w + 120000, IdleTimeout (sessionId s))]"
    "objects (resetTimer r w) = (objects w)(r \<mapsto> s\<lparr>session_timer := Some (next_handle w)\<rparr>)"
    "next_handle (resetTimer r w) = Suc (next_handle w)"
    "runSessions (resetTimer r w) = runSessions w"
    "machine (resetTimer r w) = machine w"
    "sent (resetTimer r w) = sent w"
    "now (resetTimer r w) = now w"
    "mainWindow (resetTimer r w) = mainWindow w"
    "next_ref (resetTimer r w) = next_ref w"
  using assms by (simp_all add: resetTimer_def set_timer_def clear_timer_def)

lemma stopRunSession_fields:
  "runSessions (snd (stopRunSession sid silent w)) = runSessions w"
  "machine (snd (stopRunSession sid silent w)) = machine w"
  "sent (snd (stopRunSession sid silent w)) = sent w"
  "now (snd (stopRunSession sid silent w)) = now w"
  "mainWindow (snd (stopRunSession sid silent w)) = mainWindow w"
  "next_ref (snd (stopRunSession sid silent w)) = next_ref w"
  by (simp_all add: stopRunSession_def set_timer_fields kill_fields split: option.splits)

subsection \<open>What each handler leaves alone\<close>

lemma clear_timer_fields:
  "timers (clear_timer h w) = cancel h (timers w)"
  "next_handle (clear_timer h w) = next_handle w"
  "objects (clear_timer h w) = objects w"
  "runSessions (clear_timer h w) = runSessions w"
  "machine (clear_timer h w) = machine w"
  "sent (clear_timer h w) = sent w"
  "now (clear_timer h w) = now w"
  "mainWindow (clear_timer h w) = mainWindow w"
  "next_ref (clear_timer h w) = next_ref w"
  by (simp_all add: clear_timer_def)

lemma resetTimer_frame:
  "runSessions (resetTimer r w) = runSessions w"
  "machine (resetTimer r w) = machine w"
  "sent (resetTimer r w) = sent w"
  "now (resetTimer r w) = now w"
  "mainWindow (resetTimer r w) = mainWindow w"
  "next_ref (resetTimer r w) = next_ref w"
  by (simp_all add: resetTimer_def set_timer_def clear_timer_def split: option.splits)

lemma send_input_frame:
  "runSessions (snd (send_input sid input w)) = runSessions w"
  "machine (snd (send_input sid input w)) = machine w"
  "sent (snd (send_input sid input w)) = sent w"
  "next_ref (snd (send_input sid input w)) = next_ref w"
  by (simp_all add: send_input_def resetTimer_frame split: option.splits)

lemma stop_run_frame:
  "runSessions (snd (stop_run sid w)) = runSessions w"
  "machine (snd (stop_run sid w)) = machine w"
  "sent (snd (stop_run sid w)) = sent w"
  "next_ref (snd (stop_run sid w)) = next_ref w"
  by (simp_all add: stop_run_def stopRunSession_fields split: prod.splits)
     (metis snd_conv stopRunSession_fields)+

lemma run_task_frame:
  "runSessions (run_task cb w) = runSessions w"
  "machine (run_task cb w) = machine w"
  "sent (run_task cb w) = sent w"
  "next_ref (run_task cb w) = next_ref w"
  "mainWindow (run_task cb w) = mainWindow w"
  by (cases cb; simp add: stopRunSession_fields kill_fields)+

lemma fire_timer_frame:
  "runSessions (fire_timer e w) = runSessions w"
  "machine (fire_timer e w) = machine w"
  "sent (fire_timer e w) = sent w"
  "next_ref (fire_timer e w) = next_ref w"
  "mainWindow (fire_timer e w) = mainWindow w"
  by (simp_all add: fire_timer_def run_task_frame)

lemma run_timers_done: "earliest (due_timers limit w) = None \<Longrightarrow> run_timers limit w = w"
  by (subst run_timers.simps) simp

lemma run_timers_step:
  "earliest (due_timers limit w) = Some e \<Longrightarrow> run_timers limit w = run_timers limit (fire_timer e w)"
  by (subst run_timers.simps) simp

lemma run_timers_invariant:
  assumes "I limit w"
    and "\<And>l w e. I l w \<Longrightarrow> earliest (due_timers l w) = Some e \<Longrightarrow> I l (fire_timer e w)"
  shows "I limit (run_timers limit w)"
  using assms(1)
proof (induction limit w rule: run_timers.induct)
  case (1 limit w)
  show ?case
  proof (cases "earliest (due_timers limit w)")
    case None
    with "1.prems" show ?thesis by (simp add: run_timers_done)
  next
    case (Some e)
    have "I limit (fire_timer e w)" using "1.prems" Some by (rule assms(2))
    then have "I limit (run_timers limit (fire_timer e w))" using Some by (intro "1.IH")
    with Some show ?thesis by (simp add: run_timers_step)
  qed
qed

lemma run_timers_frame:
  "runSessions (run_timers limit w) = runSessions w"
  "machine (run_timers limit w) = machine w"
  "sent (run_timers limit w) = sent w"
  "next_ref (run_timers limit w) = next_ref w"
  "mainWindow (run_timers limit w) = mainWindow w"
proof -
  show "runSessions (run_timers limit w) = runSessions w"
    by (rule run_timers_invariant [where I = "\<lambda>l w'. runSessions w' = runSessions w"])
       (simp_all add: fire_timer_frame)
  show "machine (run_timers limit w) = machine w"
    by (rule run_timers_invariant [where I = "\<lambda>l w'. machine w' = machine w"])
       (simp_all add: fire_timer_frame)
  show "sent (run_timers limit w) = sent w"
    by (rule run_timers_invariant [where I = "\<lambda>l w'. sent w' = sent w"])
       (simp_all add: fire_timer_frame)
  show "next_ref (run_timers limit w) = next_ref w"
    by (rule run_timers_invariant [where I = "\<lambda>l w'. next_ref w' = next_ref w"])
       (simp_all add: fire_timer_frame)
  show "mainWindow (run_timers limit w) = mainWindow w"
    by (rule run_timers_invariant [where I = "\<lambda>l w'. mainWindow w' = mainWindow w"])
       (simp_all add: fire_timer_frame)
qed

lemma elapse_frame:
  "runSessions (elapse d w) = runSessions w"
  "machine (elapse d w) = machine w"
  "sent (elapse d w) = sent w"
  "next_ref (elapse d w) = next_ref w"
  "mainWindow (elapse d w) = mainWindow w"
  by (simp_all add: elapse_def run_timers_frame)

lemma registerRunSession_fields:
  "timers (registerRunSession sid p cl w)
     = timers w @ [(next_handle w, now w + 120000, IdleTimeout sid)]"
  "objects (registerRunSession sid p cl w)
     = (objects w)(next_ref w \<mapsto>
         \<lparr>sessionId = sid, proc = p, cleanup = cl, session_timer = Some (next_handle w)\<rparr>)"
  "runSessions (registerRunSession sid p cl w) = (runSessions w)(sid \<mapsto> next_ref w)"
  "next_ref (registerRunSession sid p cl w) = Suc (next_ref w)"
  "next_handle (registerRunSession sid p cl w) = Suc (next_handle w)"
  "machine (registerRunSession sid p cl w) = machine w"
  "sent (registerRunSession sid p cl w) = sent w"
  "now (registerRunSession sid p cl w) = now w"
  "mainWindow (registerRunSession sid p cl w) = mainWindow w"
  by (simp_all add: registerRunSession_def resetTimer_def set_timer_def clear_timer_def Let_def)

lemma startRunSession_world:
  "(\<exists>h. snd (startRunSession env t1 rnd1 t2 rnd2 language code w) = w\<lparr>machine := h\<rparr>) \<or>
   (\<exists>h p cl. snd (startRunSession env t1 rnd1 t2 rnd2 language code w)
      = registerRunSession (createSessionId t1 rnd1) p cl (w\<lparr>machine := h\<rparr>))"
proof (cases "language \<in> set getSupportedLanguages")
  case False
  then have "snd (startRunSession env t1 rnd1 t2 rnd2 language code w) = w\<lparr>machine := machine w\<rparr>"
    by (simp add: startRunSession_def)
  then show ?thesis by blast
next
  case True
  obtain q h where q: "prepare env language code (session_base (machine w) t2 rnd2) (machine w) = (q, h)"
    by (cases "prepare env language code (session_base (machine w) t2 rnd2) (machine w)")
  show ?thesis
  proof (cases q)
    case (Refused msg)
    with True q have "snd (startRunSession env t1 rnd1 t2 rnd2 language code w) = w\<lparr>machine := h\<rparr>"
      by (simp add: startRunSession_def Let_def)
    then show ?thesis by blast
  next
    case (Raised e cl)
    with True q have "snd (startRunSession env t1 rnd1 t2 rnd2 language code w)
        = w\<lparr>machine := run_cleanup cl h\<rparr>"
      by (simp add: startRunSession_def Let_def)
    then show ?thesis by blast
  next
    case (Ready po cl)
    show ?thesis
    proof (cases po)
      case None
      with Ready True q have "snd (startRunSession env t1 rnd1 t2 rnd2 language code w)
          = w\<lparr>machine := run_cleanup cl h\<rparr>"
        by (simp add: startRunSession_def Let_def)
      then show ?thesis by blast
    next
      case (Some p)
      with Ready True q have "snd (startRunSession env t1 rnd1 t2 rnd2 language code w)
          = registerRunSession (createSessionId t1 rnd1) p cl (w\<lparr>machine := h\<rparr>)"
        by (simp add: startRunSession_def Let_def)
      then show ?thesis by blast
    qed
  qed
qed

subsection \<open>A session that has been torn down stays torn down\<close>

lemma retired_frame:
  assumes "retired r h w" "objects w' = objects w" "next_ref w' = next_ref w"
    "runSessions w' = runSessions w" "next_handle w' = next_handle w" "set (timers w') \<subseteq> set (timers w)"
  shows "retired r h w'"
  using assms unfolding retired_def by auto

lemma retired_machine: "retired r h w \<Longrightarrow> retired r h (w\<lparr>machine := m\<rparr>)"
  by (erule retired_frame) simp_all

lemma retired_clear_timer: "retired r h w \<Longrightarrow> retired r h (clear_timer x w)"
  by (erule retired_frame) (simp_all add: clear_timer_fields set_cancel)

lemma retired_set_timer: "retired r h w \<Longrightarrow> retired r h (snd (set_timer cb d w))"
  unfolding retired_def by (auto simp: set_timer_fields handle_of_def)

lemma retired_kill: "retired r h w \<Longrightarrow> retired r h (kill r' sg w)"
  unfolding retired_def by (auto simp: kill_def split: option.splits)

lemma retired_resetTimer: "retired r h w \<Longrightarrow> r' \<noteq> r \<Longrightarrow> retired r h (resetTimer r' w)"
proof (cases "objects w r'")
  case None
  assume "retired r h w"
  with None show ?thesis by (simp add: resetTimer_def)
next
  case (Some s')
  assume a: "retired r h w" "r' \<noteq> r"
  have "\<forall>e\<in>set (cancel (session_timer s') (timers w)). handle_of e \<noteq> h"
    using a(1) set_cancel [of "session_timer s'" "timers w"] unfolding retired_def by blast
  with a show ?thesis
    unfolding retired_def
    by (auto simp: resetTimer_fields [OF Some] resetTimer_frame handle_of_def)
qed

lemma retired_sent: "retired r h w \<Longrightarrow> retired r h (w\<lparr>sent := m\<rparr>)"
  by (erule retired_frame) simp_all

lemma retired_register: "retired r h w \<Longrightarrow> retired r h (registerRunSession sid p cl w)"
  unfolding retired_def by (auto simp: registerRunSession_fields handle_of_def)

lemma retired_stop: "retired r h w \<Longrightarrow> retired r h (snd (stopRunSession sid silent w))"
  by (auto simp: stopRunSession_def intro: retired_set_timer retired_kill split: option.splits)

lemma retired_run_task: "retired r h w \<Longrightarrow> retired r h (run_task cb w)"
  by (cases cb) (auto intro: retired_stop retired_kill)

lemma retired_fire_timer: "retired r h w \<Longrightarrow> retired r h (fire_timer e w)"
proof -
  assume a: "retired r h w"
  have "retired r h (w\<lparr>timers := remove1 e (timers w), now := max (now w) (due_of e)\<rparr>)"
    by (rule retired_frame [OF a]) (simp_all add: set_remove1_subset)
  then show ?thesis unfolding fire_timer_def by (rule retired_run_task)
qed

lemma retired_elapse: "retired r h w \<Longrightarrow> retired r h (elapse d w)"
proof -
  assume a: "retired r h w"
  have b: "retired r h (run_timers (now w + d) w)"
    by (rule run_timers_invariant [where I = "\<lambda>l. retired r h"]) (auto intro: a retired_fire_timer)
  show ?thesis
    unfolding elapse_def by (rule retired_frame [OF b]) simp_all
qed

lemma retired_send_input: "retired r h w \<Longrightarrow> retired r h (snd (send_input sid input w))"
proof -
  assume a: "retired r h w"
  show ?thesis
  proof (cases "\<exists>w'. send_input sid input w = (OkReply True, w')")
    case False
    then have "snd (send_input sid input w) = w"
      by (auto simp: send_input_def split: option.splits if_splits)
    with a show ?thesis by simp
  next
    case True
    then obtain r' s io where o: "runSessions w sid = Some r'" "objects w r' = Some s"
      "stdin (proc s) = Some io"
      and eq: "snd (send_input sid input w) = resetTimer r'
        (w\<lparr>objects := (objects w)(r' \<mapsto> s\<lparr>proc := (proc s)\<lparr>stdin := Some
            (io\<lparr>written := written io @ [(case input of None \<Rightarrow> [] | Some x \<Rightarrow> x) @ nl]\<rparr>)\<rparr>\<rparr>)\<rparr>)"
      by (auto simp: send_input_def split: option.splits if_splits)
    have ne: "r' \<noteq> r" using a o(1) unfolding retired_def by auto
    have "retired r h (w\<lparr>objects := (objects w)(r' \<mapsto> s\<lparr>proc := (proc s)\<lparr>stdin := Some
            (io\<lparr>written := written io @ [(case input of None \<Rightarrow> [] | Some x \<Rightarrow> x) @ nl]\<rparr>)\<rparr>\<rparr>)\<rparr>)"
      using a ne unfolding retired_def by auto
    then show ?thesis unfolding eq using ne by (rule retired_resetTimer)
  qed
qed

lemma retired_start:
  "retired r h w \<Longrightarrow> retired r h (snd (startRunSession env t1 rnd1 t2 rnd2 language code w))"
  using startRunSession_world [of env t1 rnd1 t2 rnd2 language code w]
  by (auto intro!: retired_register retired_machine)

lemma not_unclosed_retired: "retired r h w \<Longrightarrow> \<not> unclosed r w"
  by (auto simp: retired_def unclosed_def)

lemma alive_unclosed: "alive r w \<Longrightarrow> unclosed r w"
  by (auto simp: alive_def unclosed_def split: option.splits)

lemma retired_child_exited: "retired r h w \<Longrightarrow> r' \<noteq> r \<Longrightarrow> retired r h (child_exited r' w)"
  unfolding retired_def by (auto simp: child_exited_def split: option.splits)

lemma retired_on_data: "retired r h w \<Longrightarrow> r' \<noteq> r \<Longrightarrow> retired r h (on_data r' type data w)"
  by (auto simp: on_data_def sendRunOutput_def intro: retired_resetTimer retired_sent
        split: option.splits)

lemma retired_child_ended: "retired r h w \<Longrightarrow> r' \<noteq> r \<Longrightarrow> retired r h (child_ended r' w)"
  unfolding retired_def by (auto simp: child_ended_def split: option.splits)

lemma retired_on_close: "retired r h w \<Longrightarrow> retired r h (on_close r' code sg w)"
proof (cases "objects w r'")
  case None
  assume "retired r h w"
  with None show ?thesis by (simp add: on_close_def)
next
  case (Some s')
  assume a: "retired r h w"
  let ?w1 = "clear_timer (session_timer s') w"
  let ?w2 = "case cleanup s' of None \<Rightarrow> ?w1
             | Some files \<Rightarrow> ?w1\<lparr>machine := fold safeUnlink files (machine ?w1)\<rparr>"
  let ?w3 = "?w2\<lparr>runSessions := (runSessions ?w2)(sessionId s' := None)\<rparr>"
  have 1: "retired r h ?w1" using a by (rule retired_clear_timer)
  have 2: "retired r h ?w2" using 1 by (cases "cleanup s'") (auto intro: retired_machine)
  have 3: "retired r h ?w3" using 2 unfolding retired_def by auto
  have "retired r h (sendRunExit (sessionId s') code sg ?w3)"
    using 3 by (auto simp: sendRunExit_def intro: retired_sent)
  then show ?thesis using Some by (simp add: on_close_def Let_def)
qed

lemma retired_handle: "retired r h w \<Longrightarrow> retired r h (handle env ev w)"
proof (cases ev)
  case (ProcData r' type data)
  assume a: "retired r h w"
  show ?thesis
  proof (cases "unclosed r' w")
    case True
    with a have "r' \<noteq> r" using not_unclosed_retired by blast
    with a True ProcData show ?thesis by (simp add: retired_on_data)
  next
    case False
    with a ProcData show ?thesis by simp
  qed
next
  case (ProcClose r' code sg)
  assume a: "retired r h w"
  show ?thesis
  proof (cases "unclosed r' w")
    case True
    with a have "r' \<noteq> r" using not_unclosed_retired by blast
    with a True ProcClose show ?thesis by (simp add: retired_on_close retired_child_ended)
  next
    case False
    with a ProcClose show ?thesis by simp
  qed
next
  case (ProcExit r')
  assume a: "retired r h w"
  show ?thesis
  proof (cases "alive r' w")
    case True
    then have "unclosed r' w" by (rule alive_unclosed)
    with a have "r' \<noteq> r" using not_unclosed_retired by blast
    with a True ProcExit show ?thesis by (simp add: retired_child_exited)
  next
    case False
    with a ProcExit show ?thesis by simp
  qed
next
  case (StdinDown r')
  assume a: "retired r h w"
  then show ?thesis
    unfolding retired_def by (auto simp: StdinDown stdin_down_def split: option.splits)
next
  case (StopRun sid)
  assume a: "retired r h w"
  have "snd (stop_run sid w) = snd (stopRunSession sid False w)"
    by (simp add: stop_run_def split: prod.splits)
  with a StopRun show ?thesis by (simp add: retired_stop)
qed (auto intro: retired_start retired_send_input retired_elapse)

lemma retired_run_events: "retired r h w \<Longrightarrow> retired r h (run_events env evs w)"
  unfolding run_events_def by (induction evs arbitrary: w) (auto intro: retired_handle)

subsection \<open>Closing a session\<close>

lemma on_close_fields:
  assumes "objects w r = Some s"
  shows "runSessions (on_close r code sg w) = (runSessions w)(sessionId s := None)"
    "sent (on_close r code sg w)
       = (if mainWindow w then sent w @ [RunExit (sessionId s) code sg] else sent w)"
    "timers (on_close r code sg w) = cancel (session_timer s) (timers w)"
    "objects (on_close r code sg w) = objects w"
    "next_ref (on_close r code sg w) = next_ref w"
    "next_handle (on_close r code sg w) = next_handle w"
    "machine (on_close r code sg w) = run_cleanup (cleanup s) (machine w)"
  using assms
  by (simp_all add: on_close_def sendRunExit_def clear_timer_def run_cleanup_def Let_def
        split: option.splits)

lemma child_ended_fields:
  "runSessions (child_ended r w) = runSessions w"
  "sent (child_ended r w) = sent w"
  "timers (child_ended r w) = timers w"
  "next_ref (child_ended r w) = next_ref w"
  "next_handle (child_ended r w) = next_handle w"
  "machine (child_ended r w) = machine w"
  "mainWindow (child_ended r w) = mainWindow w"
  by (simp_all add: child_ended_def split: option.splits)

lemma on_data_frame:
  "runSessions (on_data r type data w) = runSessions w"
  "filter is_exit (sent (on_data r type data w)) = filter is_exit (sent w)"
  by (simp_all add: on_data_def resetTimer_frame sendRunOutput_def split: option.splits)

lemma handle_close:
  assumes "objects w r = Some s" "phase (proc s) \<noteq> Closed"
  shows "handle env (ProcClose r code sg) w
           = sendRunExit (sessionId s) code sg
               ((case cleanup s of
                   None \<Rightarrow> clear_timer (session_timer s) (child_ended r w)
                 | Some files \<Rightarrow> (clear_timer (session_timer s) (child_ended r w))
                     \<lparr>machine := fold safeUnlink files (machine w)\<rparr>)
                \<lparr>runSessions := (runSessions w)(sessionId s := None)\<rparr>)"
  using assms
  by (simp add: unclosed_def on_close_def child_ended_def clear_timer_def Let_def
        split: option.splits)

lemma close_retires:
  assumes "registered r s w" "phase (proc s) \<noteq> Closed" "session_timer s = Some h"
  shows "retired r h (handle env (ProcClose r code sg) w)"
proof -
  let ?s = "s\<lparr>proc := stdin_down ((proc s)\<lparr>phase := Closed\<rparr>)\<rparr>"
  have o: "objects w r = Some s" using assms(1) by (simp add: registered_def)
  have o': "objects (child_ended r w) r = Some ?s"
    by (simp add: child_ended_def o)
  have eq: "handle env (ProcClose r code sg) w = on_close r code sg (child_ended r w)"
    using o assms(2) by (simp add: unclosed_def)
  have "\<forall>e\<in>set (cancel (Some h) (timers w)). handle_of e \<noteq> h"
    by simp
  moreover have "\<forall>x. ((runSessions w)(sessionId s := None)) x \<noteq> Some r"
    using assms(1) by (auto simp: registered_def)
  moreover have "phase (proc ?s) = Closed" by (simp add: stdin_down_def)
  ultimately show ?thesis
    using assms o'
    unfolding retired_def eq registered_def
    by (simp add: on_close_fields [OF o'] child_ended_fields)
qed

lemma absent_handle:
  assumes "runSessions w sid = None" "\<not> starts sid ev"
  shows "runSessions (handle env ev w) sid = None"
proof (cases ev)
  case (StartRun t1 rnd1 t2 rnd2 language code)
  with assms(2) have ne: "createSessionId t1 rnd1 \<noteq> sid" by simp
  show ?thesis
    using startRunSession_world [of env t1 rnd1 t2 rnd2 language code w] assms(1) ne
    by (auto simp: StartRun registerRunSession_fields)
next
  case (ProcClose r code sg)
  show ?thesis
  proof (cases "unclosed r w")
    case True
    then obtain s where "objects (child_ended r w) r = Some s"
      by (auto simp: unclosed_def child_ended_def split: option.splits)
    with assms(1) True ProcClose show ?thesis
      by (simp add: on_close_fields child_ended_fields)
  next
    case False
    with assms(1) ProcClose show ?thesis by simp
  qed
next
  case (StdinDown r)
  with assms(1) show ?thesis by (simp split: option.splits)
next
  case (ProcExit r)
  with assms(1) show ?thesis by (simp add: child_exited_def split: option.splits)
qed (use assms(1) in \<open>simp_all add: send_input_frame stop_run_frame on_data_frame elapse_frame\<close>)

lemma absent_run_events:
  assumes "runSessions w sid = None" "\<forall>ev\<in>set evs. \<not> starts sid ev"
  shows "runSessions (run_events env evs w) sid = None"
  using assms unfolding run_events_def
proof (induction evs arbitrary: w)
  case Nil
  then show ?case by simp
next
  case (Cons ev evs)
  have "runSessions (handle env ev w) sid = None"
    using Cons.prems by (intro absent_handle) simp_all
  then have "runSessions (fold (handle env) evs (handle env ev w)) sid = None"
    using Cons.prems by (intro Cons.IH) simp_all
  then show ?case by simp
qed

lemma exits_handle:
  assumes "\<not> closes ev"
  shows "filter is_exit (sent (handle env ev w)) = filter is_exit (sent w)"
proof (cases ev)
  case (StartRun t1 rnd1 t2 rnd2 language code)
  show ?thesis
    using startRunSession_world [of env t1 rnd1 t2 rnd2 language code w]
    by (auto simp: StartRun registerRunSession_fields)
next
  case (ProcClose r code sg)
  with assms show ?thesis by simp
next
  case (StdinDown r)
  then show ?thesis by (simp split: option.splits)
next
  case (ProcExit r)
  then show ?thesis by (simp add: child_exited_def split: option.splits)
qed (simp_all add: send_input_frame stop_run_frame on_data_frame elapse_frame)

lemma exits_run_events:
  assumes "\<forall>ev\<in>set evs. \<not> closes ev"
  shows "filter is_exit (sent (run_events env evs w)) = filter is_exit (sent w)"
  using assms unfolding run_events_def
  by (induction evs arbitrary: w) (auto simp: exits_handle)

subsection \<open>The idle timer\<close>


















lemma demo_world_fields:
  "runSessions demo_world ''run_7_ab12cd'' = Some 0"
  "objects demo_world 0 = Some \<lparr>sessionId = ''run_7_ab12cd'', proc = demo_proc,
      cleanup = Some [''/tmp/proworldz-lab/temp_7_x9yz.js''], session_timer = Some 0\<rparr>"
  "timers demo_world = [(0, 120000, IdleTimeout ''run_7_ab12cd'')]"
  "entries (machine demo_world) = [(''temp_7_x9yz.js'', ''1'')]"
  "now demo_world = 0" "next_handle demo_world = 1" "mainWindow demo_world" "sent demo_world = []"
  by (simp_all add: demo_world_def registerRunSession_def resetTimer_def set_timer_def
        clear_timer_def initial_world_def Let_def)



subsection \<open>Every session object of a reachable state is registered\<close>

lemma sound_registered: "sound w \<Longrightarrow> objects w r = Some s \<Longrightarrow> registered r s w"
  unfolding sound_def registered_def by fastforce

lemma sound_initial: "sound (initial_world h)"
  by (simp add: sound_def initial_world_def)

lemma sound_frame:
  assumes "sound w" "objects w' = objects w" "next_ref w' = next_ref w"
    "runSessions w' = runSessions w" "next_handle w \<le> next_handle w'"
  shows "sound w'"
  using assms unfolding sound_def by (auto 0 3 intro: less_le_trans)

lemma sound_machine: "sound w \<Longrightarrow> sound (w\<lparr>machine := m\<rparr>)"
  by (erule sound_frame) simp_all

lemma sound_sent: "sound w \<Longrightarrow> sound (w\<lparr>sent := m\<rparr>)"
  by (erule sound_frame) simp_all

lemma sound_clear_timer: "sound w \<Longrightarrow> sound (clear_timer x w)"
  by (erule sound_frame) (simp_all add: clear_timer_fields)

lemma sound_set_timer: "sound w \<Longrightarrow> sound (snd (set_timer cb d w))"
  by (erule sound_frame) (simp_all add: set_timer_fields)

lemma sound_update:
  assumes "sound w" "objects w r = Some s" "sessionId s' = sessionId s"
    "session_timer s' = session_timer s"
  shows "sound (w\<lparr>objects := (objects w)(r \<mapsto> s')\<rparr>)"
  using assms unfolding sound_def by (simp; metis option.inject)

lemma sound_kill: "sound w \<Longrightarrow> sound (kill r sg w)"
  by (auto simp: kill_def intro: sound_update split: option.splits)

lemma sound_resetTimer: "sound w \<Longrightarrow> sound (resetTimer r w)"
proof (cases "objects w r")
  case None
  assume "sound w"
  with None show ?thesis by (simp add: resetTimer_def)
next
  case (Some s)
  assume a: "sound w"
  show ?thesis
    using a Some unfolding sound_def
    by (simp add: resetTimer_fields [OF Some] less_Suc_eq; metis option.inject)
qed

lemma sound_register: "sound w \<Longrightarrow> sound (registerRunSession sid p cl w)"
  unfolding sound_def
  by (simp add: registerRunSession_fields less_Suc_eq; metis less_irrefl option.inject)

lemma sound_stop: "sound w \<Longrightarrow> sound (snd (stopRunSession sid silent w))"
  by (auto simp: stopRunSession_def intro: sound_set_timer sound_kill split: option.splits)

lemma sound_run_task: "sound w \<Longrightarrow> sound (run_task cb w)"
  by (cases cb) (auto intro: sound_stop sound_kill)

lemma sound_fire_timer: "sound w \<Longrightarrow> sound (fire_timer e w)"
proof -
  assume a: "sound w"
  have "sound (w\<lparr>timers := remove1 e (timers w), now := max (now w) (due_of e)\<rparr>)"
    by (rule sound_frame [OF a]) simp_all
  then show ?thesis unfolding fire_timer_def by (rule sound_run_task)
qed

lemma sound_elapse: "sound w \<Longrightarrow> sound (elapse d w)"
proof -
  assume a: "sound w"
  have b: "sound (run_timers (now w + d) w)"
    by (rule run_timers_invariant [where I = "\<lambda>l. sound"]) (auto intro: a sound_fire_timer)
  show ?thesis
    unfolding elapse_def by (rule sound_frame [OF b]) simp_all
qed

lemma sound_send_input: "sound w \<Longrightarrow> sound (snd (send_input sid input w))"
proof -
  assume a: "sound w"
  show ?thesis
  proof (cases "\<exists>w'. send_input sid input w = (OkReply True, w')")
    case False
    then have "snd (send_input sid input w) = w"
      by (auto simp: send_input_def split: option.splits if_splits)
    with a show ?thesis by simp
  next
    case True
    then obtain r' s io where o: "objects w r' = Some s"
      and eq: "snd (send_input sid input w) = resetTimer r'
        (w\<lparr>objects := (objects w)(r' \<mapsto> s\<lparr>proc := (proc s)\<lparr>stdin := Some
            (io\<lparr>written := written io @ [(case input of None \<Rightarrow> [] | Some x \<Rightarrow> x) @ nl]\<rparr>)\<rparr>\<rparr>)\<rparr>)"
      by (auto simp: send_input_def split: option.splits if_splits)
    show ?thesis
      unfolding eq using a o by (intro sound_resetTimer sound_update) simp_all
  qed
qed

lemma sound_start:
  "sound w \<Longrightarrow> sound (snd (startRunSession env t1 rnd1 t2 rnd2 language code w))"
  using startRunSession_world [of env t1 rnd1 t2 rnd2 language code w]
  by (auto intro!: sound_register sound_machine)

lemma sound_on_data: "sound w \<Longrightarrow> sound (on_data r type data w)"
  by (auto simp: on_data_def sendRunOutput_def intro!: sound_resetTimer sound_sent
        split: option.splits)

lemma sound_child_ended: "sound w \<Longrightarrow> sound (child_ended r w)"
  by (auto simp: child_ended_def stdin_down_def intro: sound_update split: option.splits)

lemma sound_child_exited: "sound w \<Longrightarrow> sound (child_exited r w)"
  by (auto simp: child_exited_def intro: sound_update split: option.splits)

lemma sound_on_close: "sound w \<Longrightarrow> sound (on_close r code sg w)"
proof (cases "objects w r")
  case None
  assume "sound w"
  with None show ?thesis by (simp add: on_close_def)
next
  case (Some s)
  assume a: "sound w"
  let ?w1 = "clear_timer (session_timer s) w"
  let ?w2 = "case cleanup s of None \<Rightarrow> ?w1
             | Some files \<Rightarrow> ?w1\<lparr>machine := fold safeUnlink files (machine ?w1)\<rparr>"
  let ?w3 = "?w2\<lparr>runSessions := (runSessions ?w2)(sessionId s := None)\<rparr>"
  have 1: "sound ?w1" using a by (rule sound_clear_timer)
  have 2: "sound ?w2" using 1 by (cases "cleanup s") (auto intro: sound_machine)
  have 3: "sound ?w3" using 2 unfolding sound_def by auto
  have "sound (sendRunExit (sessionId s) code sg ?w3)"
    using 3 by (auto simp: sendRunExit_def intro: sound_sent)
  then show ?thesis using Some by (simp add: on_close_def Let_def)
qed

lemma sound_handle: "sound w \<Longrightarrow> sound (handle env ev w)"
proof (cases ev)
  case (StdinDown r)
  assume "sound w"
  then show ?thesis
    by (auto simp: StdinDown stdin_down_def intro: sound_update split: option.splits)
next
  case (StopRun sid)
  assume a: "sound w"
  have "snd (stop_run sid w) = snd (stopRunSession sid False w)"
    by (simp add: stop_run_def split: prod.splits)
  with a StopRun show ?thesis by (simp add: sound_stop)
qed (auto intro: sound_start sound_send_input sound_elapse sound_on_data sound_on_close
       sound_child_ended sound_child_exited)

lemma sound_run_events: "sound w \<Longrightarrow> sound (run_events env evs w)"
  unfolding run_events_def by (induction evs arbitrary: w) (auto intro: sound_handle)

lemma reachable_registered:
  assumes "objects (run_events env evs (initial_world h)) r = Some s"
  shows "registered r s (run_events env evs (initial_world h))"
  using sound_run_events [OF sound_initial] assms by (rule sound_registered)

section \<open>Claims about batch execution\<close>

text \<open>
  C9, as stated, fails: with the single input \<open>a\<close> the write happens at time 0 and
  \<open>stdin.end()\<close> is called at 1 * 100 + 100 = 200, not at 100.
\<close>

theorem execWithInput_end_delay_counterexample:
  "\<not> spec_input_delivery [''a'']
       (execWithInput [''a''] \<lparr>chunks = [], close_at = 50, close_code = Some 0\<rparr>)"
  using exec_ends [of "[''a'']" "\<lparr>chunks = [], close_at = 50, close_code = Some 0\<rparr>"]
  by (simp add: spec_input_delivery_def)

text \<open>
  C9, amended. \<open>stdin.end()\<close> is called once: at \<open>length inputs * 100 + 100\<close>, which
  is 200 after the last input, or at once when there are no inputs. The writes are a
  prefix of the script (input \<open>x\<close> at time \<open>x * 100\<close>, followed by a line feed, in
  declaration order); every input due before the timeout at 10000 is written, and all of
  them are when the child closes before the timeout.
\<close>

theorem execWithInput_input_schedule:
  "stdin_ends (execWithInput inputs ch)
     = (if inputs = [] then [0] else [length inputs * 100 + 100]) \<and>
   (\<exists>m. stdin_writes (execWithInput inputs ch) = take m (script inputs)) \<and>
   (\<forall>x\<in>set (script inputs). fst x < 10000 \<longrightarrow> x \<in> set (stdin_writes (execWithInput inputs ch))) \<and>
   (close_at ch < 10000 \<longrightarrow> stdin_writes (execWithInput inputs ch) = script inputs)"
  using exec_ends [of inputs ch] exec_writes_prefix [of inputs ch]
    exec_writes_early [of _ inputs ch] exec_quiet(3) [of ch inputs]
  by blast

theorem execWithInput_input_schedule_witness:
  "stdin_ends (execWithInput [''a'', ''b''] \<lparr>chunks = [], close_at = 250, close_code = Some 0\<rparr>)
     = [300] \<and>
   stdin_writes (execWithInput [''a'', ''b''] \<lparr>chunks = [], close_at = 250, close_code = Some 0\<rparr>)
     = [(0, ''a'' @ nl), (100, ''b'' @ nl)]"
  using execWithInput_input_schedule
    [of "[''a'', ''b'']" "\<lparr>chunks = [], close_at = 250, close_code = Some 0\<rparr>"]
  by (simp add: script_def)




section \<open>Claims about batch runs\<close>

text \<open>
  C1. The code does not do what the claim says. The Java runner ignores the base path it is
  given and writes \<open>Main.java\<close> (and \<open>javac\<close> leaves \<open>Main.class\<close>); the sweep of
  \<open>cleanupTempFiles\<close> removes only names that contain \<open>temp_<t>\<close>, so after a Java
  batch run that succeeded both files are still in the scratch directory.
\<close>

theorem java_batch_artifacts_remain:
  "map fst (entries (snd (runCodeWithInput demo_env 1700000000000 ''java''
       ''public class Main { }'' [] demo_host)))
     = [''Main.class'', ''Main.java'']"
  by (simp add: runner_defs demo_defs decimal.simps digit_def Let_def)

text \<open>
  C2. The code does not do what the claim says. \<open>runCodeWithInput\<close> has a \<open>finally\<close>
  and no \<open>catch\<close>: when the scratch directory is gone, \<open>writeFileSync\<close> throws in the
  Python runner, \<open>readdirSync\<close> throws in the cleanup, and the call rejects with that
  error instead of resolving to a result.
\<close>

theorem runCodeWithInput_rejects:
  "fst (runCodeWithInput demo_env 1700000000000 ''python'' ''print(1)'' []
          (demo_host\<lparr>present := False\<rparr>))
     = Thrown (SysError ENOENT ''scandir'' ''/tmp/proworldz-lab'')"
  by (simp add: runner_defs demo_defs decimal.simps digit_def Let_def)

text \<open>
  C6. The code does not do what the claim says. The base path of a batch run is
  \<open>temp_<t>\<close> with no random suffix, so two runs started in the same millisecond share
  it: the source file the first run has written is the file the second run writes, and
  the cleanup of the second run deletes it.
\<close>

theorem concurrent_runs_share_base:
  "writeFileSync (run_base demo_host 1700000000000 @ ''.py'') ''print(1)'' demo_host
     = Inr (demo_host\<lparr>entries := [(''temp_1700000000000.py'', ''print(1)'')]\<rparr>) \<and>
   entries (snd (runCodeWithInput demo_env 1700000000000 ''python'' ''print(2)'' []
       (demo_host\<lparr>entries := [(''temp_1700000000000.py'', ''print(1)'')]\<rparr>))) = []"
  by (simp add: runner_defs demo_defs decimal.simps digit_def Let_def)



section \<open>Claims about the IPC handlers\<close>


text \<open>
  C10. \<open>stop-run\<close> for an id that is not in \<open>runSessions\<close> returns \<open>{ok: false}\<close> and
  changes nothing: no signal, no file, no table entry. For an id in the table it returns
  \<open>{ok: true}\<close>; the table, the scratch directory and the messages sent stay as they are
  (it sends SIGTERM to a child that has not ended and schedules the SIGKILL).
\<close>

theorem stop_run_effect:
  "(runSessions w sid = None \<longrightarrow> stop_run sid w = (OkReply False, w)) \<and>
   (runSessions w sid \<noteq> None \<longrightarrow>
      fst (stop_run sid w) = OkReply True \<and>
      runSessions (snd (stop_run sid w)) = runSessions w \<and>
      machine (snd (stop_run sid w)) = machine w \<and>
      sent (snd (stop_run sid w)) = sent w)"
proof (cases "runSessions w sid")
  case None
  then show ?thesis by (simp add: stop_run_def stopRunSession_def)
next
  case (Some r)
  have "stop_run sid w = (OkReply True, snd (stopRunSession sid False w))"
    using Some by (simp add: stop_run_def stopRunSession_def)
  with Some show ?thesis by (simp add: stopRunSession_fields)
qed

theorem stop_run_effect_witness:
  "stop_run ''nobody'' demo_world = (OkReply False, demo_world) \<and>
   fst (stop_run ''run_7_ab12cd'' demo_world) = OkReply True \<and>
   runSessions (snd (stop_run ''run_7_ab12cd'' demo_world)) ''run_7_ab12cd'' = Some 0 \<and>
   entries (machine (snd (stop_run ''run_7_ab12cd'' demo_world))) = [(''temp_7_x9yz.js'', ''1'')]"
proof -
  have n: "runSessions demo_world ''nobody'' = None"
    by (simp add: demo_world_def registerRunSession_def resetTimer_def set_timer_def
          clear_timer_def initial_world_def Let_def)
  show ?thesis
    using stop_run_effect [of demo_world "''nobody''"]
      stop_run_effect [of demo_world "''run_7_ab12cd''"] n
    by (simp add: demo_world_fields)
qed

text \<open>
  C8, as stated, fails: after \<open>kill\<close> has sent a signal (\<open>proc.killed\<close>), the handler
  answers \<open>No active session.\<close> although the session is in the table and its \<open>stdin\<close> is
  writable.
\<close>

theorem send_input_killed_counterexample:
  "spec_send_accepted ''run_7_ab12cd'' (snd (stop_run ''run_7_ab12cd'' demo_world)) \<and>
   fst (send_input ''run_7_ab12cd'' (Some ''x'') (snd (stop_run ''run_7_ab12cd'' demo_world)))
     = ErrorReply no_active_session"
  by (simp add: spec_send_accepted_def stdin_of_def send_input_def stop_run_def
        stopRunSession_def kill_def set_timer_def demo_world_fields demo_proc_def demo_stdin_def)

text \<open>
  C8, amended. \<open>send-input\<close> answers \<open>No active session.\<close> and changes nothing when the id
  is not in \<open>runSessions\<close>, when \<open>kill\<close> has sent the child a signal (\<open>proc.killed\<close>), and
  when \<open>proc.stdin\<close> is missing or not writable. Otherwise it writes the text (the empty
  text for a missing input) followed by a line feed; if the write throws it answers with
  the error's message and changes nothing, and if not it cancels the idle timer, starts a
  new one for 120000 and answers \<open>{ok: true}\<close>.
\<close>

theorem send_input_outcomes:
  "(runSessions w sid = None \<longrightarrow> send_input sid input w = (ErrorReply no_active_session, w)) \<and>
   (\<forall>r s. runSessions w sid = Some r \<and> objects w r = Some s \<longrightarrow>
      (proc_killed (proc s) \<or> stdin (proc s) = None \<longrightarrow>
         send_input sid input w = (ErrorReply no_active_session, w)) \<and>
      (\<forall>io. stdin (proc s) = Some io \<longrightarrow>
         (\<not> writable io \<longrightarrow> send_input sid input w = (ErrorReply no_active_session, w)) \<and>
         (writable io \<and> \<not> proc_killed (proc s) \<longrightarrow>
            (\<forall>msg. write_fault io = Some msg \<longrightarrow> send_input sid input w = (ErrorReply msg, w)) \<and>
            (write_fault io = None \<longrightarrow>
               fst (send_input sid input w) = OkReply True \<and>
               stdin_of r (snd (send_input sid input w))
                 = Some (io\<lparr>written := written io @
                      [(case input of None \<Rightarrow> [] | Some x \<Rightarrow> x) @ nl]\<rparr>) \<and>
               timers (snd (send_input sid input w))
                 = cancel (session_timer s) (timers w) @
                   [(next_handle w, now w + 120000, IdleTimeout (sessionId s))]))))"
proof (intro conjI impI allI)
  assume "runSessions w sid = None"
  then show "send_input sid input w = (ErrorReply no_active_session, w)"
    by (simp add: send_input_def)
next
  fix r s
  assume a: "runSessions w sid = Some r \<and> objects w r = Some s"
    and "proc_killed (proc s) \<or> stdin (proc s) = None"
  then show "send_input sid input w = (ErrorReply no_active_session, w)"
    by (auto simp: send_input_def split: option.splits)
next
  fix r s io
  assume a: "runSessions w sid = Some r \<and> objects w r = Some s" "stdin (proc s) = Some io"
    and "\<not> writable io"
  then show "send_input sid input w = (ErrorReply no_active_session, w)"
    by (simp add: send_input_def)
next
  fix r s io msg
  assume "runSessions w sid = Some r \<and> objects w r = Some s" "stdin (proc s) = Some io"
    "writable io \<and> \<not> proc_killed (proc s)" "write_fault io = Some msg"
  then show "send_input sid input w = (ErrorReply msg, w)"
    by (simp add: send_input_def)
next
  fix r s io
  assume a: "runSessions w sid = Some r \<and> objects w r = Some s" "stdin (proc s) = Some io"
    "writable io \<and> \<not> proc_killed (proc s)" "write_fault io = None"
  let ?s = "s\<lparr>proc := (proc s)\<lparr>stdin := Some
              (io\<lparr>written := written io @ [(case input of None \<Rightarrow> [] | Some x \<Rightarrow> x) @ nl]\<rparr>)\<rparr>\<rparr>"
  let ?w = "w\<lparr>objects := (objects w)(r \<mapsto> ?s)\<rparr>"
  have eq: "send_input sid input w = (OkReply True, resetTimer r ?w)"
    using a by (simp add: send_input_def)
  have o: "objects ?w r = Some ?s" by simp
  show "fst (send_input sid input w) = OkReply True" by (simp add: eq)
  show "stdin_of r (snd (send_input sid input w))
          = Some (io\<lparr>written := written io @ [(case input of None \<Rightarrow> [] | Some x \<Rightarrow> x) @ nl]\<rparr>)"
    by (simp add: eq stdin_of_def resetTimer_fields [OF o])
  show "timers (snd (send_input sid input w))
          = cancel (session_timer s) (timers w) @
            [(next_handle w, now w + 120000, IdleTimeout (sessionId s))]"
    by (simp add: eq resetTimer_fields [OF o])
qed

theorem send_input_outcomes_witness:
  "send_input ''nobody'' (Some ''x'') demo_world = (ErrorReply no_active_session, demo_world) \<and>
   fst (send_input ''run_7_ab12cd'' (Some ''hi'') demo_world) = OkReply True \<and>
   stdin_of 0 (snd (send_input ''run_7_ab12cd'' (Some ''hi'') demo_world))
     = Some \<lparr>writable = True, write_fault = None, written = [''hi'' @ nl]\<rparr> \<and>
   timers (snd (send_input ''run_7_ab12cd'' (Some ''hi'') demo_world))
     = [(1, 120000, IdleTimeout ''run_7_ab12cd'')]"
proof -
  have n: "runSessions demo_world ''nobody'' = None"
    by (simp add: demo_world_def registerRunSession_def resetTimer_def set_timer_def
          clear_timer_def initial_world_def Let_def)
  show ?thesis
    using send_input_outcomes [of demo_world "''nobody''" "Some ''x''"]
      send_input_outcomes [of demo_world "''run_7_ab12cd''" "Some ''hi''"] n
    by (simp add: demo_world_fields demo_proc_def demo_stdin_def handle_of_def)
qed

section \<open>Claims about the life of a session\<close>

text \<open>
  C3. When the child of a registered session closes, the \<open>close\<close> listener removes the
  entry from \<open>runSessions\<close> and only then sends \<open>run-exit\<close>: the message is sent from a
  state that no longer has the entry, and it is the one message the listener sends. After
  that, whatever happens next (as long as no new session is started under the same id),
  \<open>send-input\<close> and \<open>stop-run\<close> for that id find no session and change nothing, the child
  cannot close a second time, and no event other than the \<open>close\<close> of a child sends a
  \<open>run-exit\<close>.
\<close>

theorem close_removes_entry_before_exit_event:
  assumes "registered r s w" and "phase (proc s) \<noteq> Closed" and "mainWindow w"
    and "\<forall>ev\<in>set evs. \<not> starts (sessionId s) ev"
    and "w1 = handle env (ProcClose r code sg) w"
    and "w2 = run_events env evs w1"
  shows "(\<exists>w0. runSessions w0 (sessionId s) = None \<and>
               w1 = sendRunExit (sessionId s) code sg w0) \<and>
         runSessions w1 (sessionId s) = None \<and>
         sent w1 = sent w @ [RunExit (sessionId s) code sg] \<and>
         send_input (sessionId s) input w2 = (ErrorReply no_active_session, w2) \<and>
         stop_run (sessionId s) w2 = (OkReply False, w2) \<and>
         handle env (ProcClose r code' sg') w2 = w2 \<and>
         ((\<forall>ev\<in>set evs. \<not> closes ev) \<longrightarrow>
            filter is_exit (sent w2) = filter is_exit (sent w) @ [RunExit (sessionId s) code sg])"
proof -
  have o: "objects w r = Some s" using assms(1) by (simp add: registered_def)
  obtain h where h: "session_timer s = Some h" using assms(1) by (auto simp: registered_def)
  let ?w0 = "(case cleanup s of
                None \<Rightarrow> clear_timer (session_timer s) (child_ended r w)
              | Some files \<Rightarrow> (clear_timer (session_timer s) (child_ended r w))
                  \<lparr>machine := fold safeUnlink files (machine w)\<rparr>)
             \<lparr>runSessions := (runSessions w)(sessionId s := None)\<rparr>"
  have eq: "w1 = sendRunExit (sessionId s) code sg ?w0"
    unfolding assms(5) using o assms(2) by (rule handle_close)
  have 1: "\<exists>w0. runSessions w0 (sessionId s) = None \<and> w1 = sendRunExit (sessionId s) code sg w0"
    using eq by (intro exI [of _ ?w0]) simp
  have mw: "mainWindow ?w0"
    using assms(3) by (cases "cleanup s") (simp_all add: clear_timer_fields child_ended_fields)
  have sw: "sent ?w0 = sent w"
    by (cases "cleanup s") (simp_all add: clear_timer_fields child_ended_fields)
  have 2: "runSessions w1 (sessionId s) = None"
    unfolding eq by (simp add: sendRunExit_def)
  have 3: "sent w1 = sent w @ [RunExit (sessionId s) code sg]"
    unfolding eq using mw sw by (simp add: sendRunExit_def)
  have ab: "runSessions w2 (sessionId s) = None"
    unfolding assms(6) using 2 assms(4) by (rule absent_run_events)
  have 4: "send_input (sessionId s) input w2 = (ErrorReply no_active_session, w2)"
    using ab by (simp add: send_input_def)
  have 5: "stop_run (sessionId s) w2 = (OkReply False, w2)"
    using ab by (simp add: stop_run_def stopRunSession_def)
  have "retired r h w1"
    unfolding assms(5) using assms(1,2) h by (rule close_retires)
  then have "retired r h w2"
    unfolding assms(6) by (rule retired_run_events)
  then have 6: "handle env (ProcClose r code' sg') w2 = w2"
    using not_unclosed_retired by simp
  have 7: "(\<forall>ev\<in>set evs. \<not> closes ev) \<longrightarrow>
             filter is_exit (sent w2) = filter is_exit (sent w) @ [RunExit (sessionId s) code sg]"
    unfolding assms(6) using 3 by (simp add: exits_run_events)
  from 1 2 3 4 5 6 7 show ?thesis by blast
qed

theorem close_removes_entry_before_exit_event_witness:
  "runSessions (handle demo_env (ProcClose 0 (Some 0) None) demo_world) ''run_7_ab12cd'' = None \<and>
   sent (handle demo_env (ProcClose 0 (Some 0) None) demo_world)
     = [RunExit ''run_7_ab12cd'' (Some 0) None] \<and>
   fst (send_input ''run_7_ab12cd'' (Some ''x'')
         (run_events demo_env [Elapse 5, StopRun ''run_7_ab12cd'']
            (handle demo_env (ProcClose 0 (Some 0) None) demo_world)))
     = ErrorReply no_active_session \<and>
   fst (stop_run ''run_7_ab12cd''
         (run_events demo_env [Elapse 5, StopRun ''run_7_ab12cd'']
            (handle demo_env (ProcClose 0 (Some 0) None) demo_world)))
     = OkReply False \<and>
   filter is_exit (sent (run_events demo_env [Elapse 5, StopRun ''run_7_ab12cd'']
            (handle demo_env (ProcClose 0 (Some 0) None) demo_world)))
     = [RunExit ''run_7_ab12cd'' (Some 0) None]"
proof -
  let ?s = "\<lparr>sessionId = ''run_7_ab12cd'', proc = demo_proc,
      cleanup = Some [''/tmp/proworldz-lab/temp_7_x9yz.js''], session_timer = Some 0\<rparr>"
  have nr: "next_ref demo_world = 1"
    by (simp add: demo_world_def registerRunSession_fields initial_world_def)
  have rs: "runSessions demo_world x = Some 0 \<longrightarrow> x = ''run_7_ab12cd''" for x
    by (simp add: demo_world_def registerRunSession_fields initial_world_def)
  have reg: "registered 0 ?s demo_world"
    unfolding registered_def using rs by (simp add: demo_world_fields nr)
  have al: "phase (proc ?s) \<noteq> Closed" by (simp add: demo_proc_def)
  have ns: "\<forall>ev\<in>set [Elapse 5, StopRun ''run_7_ab12cd'']. \<not> starts (sessionId ?s) ev" by simp
  have nc: "\<forall>ev\<in>set [Elapse 5, StopRun ''run_7_ab12cd'']. \<not> closes ev" by simp
  show ?thesis
    using close_removes_entry_before_exit_event
      [OF reg al demo_world_fields(7) ns refl refl, of demo_env "Some 0" None "Some ''x''"] nc
    by (simp add: demo_world_fields)
qed



end
